theory Spec2Isabelle
  imports Main
begin

section \<open>Data model of \<^verbatim>\<open>picross_solver.py\<close>\<close>

text \<open>
  A cell of the numpy object array \<^verbatim>\<open>self.board\<close> holds \<^verbatim>\<open>None\<close> (unknown) or a
  one-character string, \<^verbatim>\<open>"1"\<close> (filled) or \<^verbatim>\<open>"0"\<close> (empty). A pattern is a Python
  \<^verbatim>\<open>str\<close> over these two characters.

  A Python \<^verbatim>\<open>set[str]\<close> is modelled by a duplicate-free list of strings: its length is
  \<^verbatim>\<open>len\<close> of the set, and the list order stands for the (unspecified) iteration order.
\<close>

type_synonym cell = "char option"

datatype error = IndexError | ValueError

text \<open>\<^verbatim>\<open>"0"*k\<close> and \<^verbatim>\<open>"1"*k\<close>: a negative count gives the empty string.\<close>

definition zeros :: "int \<Rightarrow> string" where
  "zeros k = replicate (nat k) CHR ''0''"

definition ones :: "int \<Rightarrow> string" where
  "ones k = replicate (nat k) CHR ''1''"

section \<open>Line enumerator: \<^verbatim>\<open>get_numsposs\<close>\<close>

text \<open>\<^verbatim>\<open>deg_of_free = 1 + remain_len - sum(nums) - len(nums)\<close>\<close>

definition deg_of_free :: "int list \<Rightarrow> int \<Rightarrow> int" where
  "deg_of_free nums remain_len = 1 + remain_len - sum_list nums - int (length nums)"

text \<open>
  \<^verbatim>\<open>range(deg_of_free+1)\<close> is \<open>[0..<nat (deg_of_free + 1)]\<close>, empty when the freedom is
  negative. The three equations follow the source's tests \<^verbatim>\<open>nums == []\<close>,
  \<^verbatim>\<open>nums == [0]\<close> and \<^verbatim>\<open>len(nums) > 1\<close>; \<open>remdups\<close> is the set's absorption of
  repeated \<^verbatim>\<open>add\<close>/\<^verbatim>\<open>update\<close>.
\<close>

fun get_numsposs :: "int list \<Rightarrow> int \<Rightarrow> string list" where
  "get_numsposs [] remain_len = ['''']"
| "get_numsposs [n] remain_len =
     (if n = 0 then [zeros remain_len]
      else remdups (map (\<lambda>i. let string = replicate i CHR ''0'' @ ones n
                              in string @ zeros (remain_len - int (length string)))
                        [0..<nat (deg_of_free [n] remain_len + 1)]))"
| "get_numsposs (n # m # ns) remain_len =
     remdups (concat (map (\<lambda>i. let string = replicate i CHR ''0'' @ ones n @ ''0''
                                in map (\<lambda>rest. string @ rest)
                                     (get_numsposs (m # ns) (remain_len - int (length string))))
                          [0..<nat (deg_of_free (n # m # ns) remain_len + 1)]))"

text \<open>
  A hint as the spec's data model has it: positive block lengths, or the single entry 0
  for a deliberately empty line.
\<close>

definition hint_ok :: "int list \<Rightarrow> bool" where
  "hint_ok nums = (nums = [0] \<or> (nums \<noteq> [] \<and> list_all (\<lambda>b. 0 < b) nums))"

text \<open>
  The blocks of a pattern as the glossary defines them: the lengths of its maximal runs of
  filled cells, left to right. \<open>k\<close> is the length of the run being read. Two consecutive
  runs of this list are always separated by at least one cell that is not filled.
\<close>

fun runs_from :: "nat \<Rightarrow> string \<Rightarrow> nat list" where
  "runs_from k [] = (if k = 0 then [] else [k])"
| "runs_from k (c # cs) =
     (if c = CHR ''1'' then runs_from (Suc k) cs
      else (if k = 0 then [] else [k]) @ runs_from 0 cs)"

definition filled_runs :: "string \<Rightarrow> nat list" where
  "filled_runs p = runs_from 0 p"

section \<open>Sequencing of fallible steps\<close>

text \<open>
  A Python exception aborts the enclosing comprehension or loop at the first step that
  raises. \<open>collect\<close> runs the steps of a comprehension left to right; \<open>fold_err\<close>
  runs a loop body over its index range, threading the object's state.
\<close>

fun collect :: "('e + 'a) list \<Rightarrow> 'e + 'a list" where
  "collect [] = Inr []"
| "collect (Inl e # rest) = Inl e"
| "collect (Inr v # rest) = (case collect rest of Inl e \<Rightarrow> Inl e | Inr vs \<Rightarrow> Inr (v # vs))"

fun fold_err :: "('a \<Rightarrow> 's \<Rightarrow> 'e + 's) \<Rightarrow> 'a list \<Rightarrow> 's \<Rightarrow> 'e + 's" where
  "fold_err f [] s = Inr s"
| "fold_err f (x # xs) s = (case f x s of Inl e \<Rightarrow> Inl e | Inr s' \<Rightarrow> fold_err f xs s')"

section \<open>\<^verbatim>\<open>combine_known_nums\<close>\<close>

text \<open>
  \<^verbatim>\<open>[A or numsB[i] for i, A in enumerate(numsA)]\<close>: a cell string is truthy, \<^verbatim>\<open>None\<close>
  is falsy, and \<^verbatim>\<open>numsB[i]\<close> is only evaluated (and can only raise) where \<^verbatim>\<open>A\<close> is
  \<^verbatim>\<open>None\<close>.
\<close>

definition known_or :: "cell list \<Rightarrow> nat \<times> cell \<Rightarrow> error + cell" where
  "known_or numsB ia =
     (case snd ia of
        Some c \<Rightarrow> Inr (Some c)
      | None \<Rightarrow> if fst ia < length numsB then Inr (numsB ! fst ia) else Inl IndexError)"

definition combine_known_nums :: "cell list \<Rightarrow> cell list \<Rightarrow> error + cell list" where
  "combine_known_nums numsA numsB = collect (map (known_or numsB) (enumerate 0 numsA))"

section \<open>Line intersector: \<^verbatim>\<open>poss_intersection\<close>\<close>

text \<open>
  The inner loop over \<^verbatim>\<open>line_poss[1:]\<close> at position \<open>i\<close>: \<^verbatim>\<open>poss[i]\<close> raises when
  \<open>poss\<close> is too short; the first differing pattern sets the cell to \<^verbatim>\<open>None\<close> and
  breaks.
\<close>

fun check_pos :: "string list \<Rightarrow> nat \<times> char \<Rightarrow> error + cell" where
  "check_pos [] ic = Inr (Some (snd ic))"
| "check_pos (poss # rest) ic =
     (if length poss \<le> fst ic then Inl IndexError
      else if snd ic = poss ! fst ic then check_pos rest ic
      else Inr None)"

text \<open>
  \<open>line_poss\<close> is the set in the order \<^verbatim>\<open>tuple(line_poss)\<close> lists it. A one-element
  set is unpacked by \<^verbatim>\<open>list(*line_poss)\<close>; an empty one fails at \<^verbatim>\<open>line_poss[0]\<close>.
\<close>

definition poss_intersection :: "string list \<Rightarrow> error + cell list" where
  "poss_intersection line_poss =
     (if length line_poss = 1 then Inr (map Some (hd line_poss))
      else case line_poss of
             [] \<Rightarrow> Inl IndexError
           | first # others \<Rightarrow> collect (map (check_pos others) (enumerate 0 first)))"

text \<open>
  The call as seen by the caller: the set object after the call, and the value returned.
  The source only reads the set (\<^verbatim>\<open>len\<close>, unpacking, the copy \<^verbatim>\<open>tuple(line_poss)\<close>
  bound to the local name).
\<close>

definition poss_intersection_call :: "string list \<Rightarrow> string list \<times> (error + cell list)" where
  "poss_intersection_call line_poss = (line_poss, poss_intersection line_poss)"

section \<open>The board\<close>

record PicrossBoard =
  verlist :: "int list list"
  horlist :: "int list list"
  height :: nat
  width :: nat
  board :: "cell list list"
  verposs :: "string list list"
  horposs :: "string list list"

text \<open>
  \<^verbatim>\<open>__init__\<close> on hints already parsed to integers: \<open>horlist\<close> are the hints at the top
  (one per column), \<open>verlist\<close> the hints on the left (one per row); the board is
  \<^verbatim>\<open>full((height, width), None)\<close>. The candidate sets do not exist before
  \<^verbatim>\<open>initial_possibilities\<close>.
\<close>

definition construct :: "int list list \<Rightarrow> int list list \<Rightarrow> PicrossBoard" where
  "construct horl verl =
     \<lparr> verlist = verl, horlist = horl, height = length verl, width = length horl,
       board = replicate (length verl) (replicate (length horl) None),
       verposs = [], horposs = [] \<rparr>"

text \<open>The array keeps its shape \<open>(height, width)\<close>, one candidate set per line.\<close>

definition shaped :: "PicrossBoard \<Rightarrow> bool" where
  "shaped s = (length (board s) = height s \<and> list_all (\<lambda>row. length row = width s) (board s))"

text \<open>What the seeding loops keep fixed: the shape and the hints.\<close>

definition seed_inv :: "nat \<Rightarrow> nat \<Rightarrow> int list list \<Rightarrow> int list list \<Rightarrow> PicrossBoard \<Rightarrow> bool" where
  "seed_inv h w hl vl s =
     (shaped s \<and> height s = h \<and> width s = w \<and> horlist s = hl \<and> verlist s = vl)"

text \<open>What the pruning passes keep fixed: the shape, and one candidate set per line.\<close>

definition pass_inv :: "nat \<Rightarrow> nat \<Rightarrow> PicrossBoard \<Rightarrow> bool" where
  "pass_inv h w s =
     (shaped s \<and> height s = h \<and> width s = w \<and> length (verposs s) = h \<and> length (horposs s) = w)"

text \<open>Every candidate pattern has the length of its line.\<close>

definition fits :: "PicrossBoard \<Rightarrow> bool" where
  "fits s =
     (list_all (list_all (\<lambda>p. length p = width s)) (verposs s) \<and>
      list_all (list_all (\<lambda>p. length p = height s)) (horposs s))"

text \<open>
  Assignment of a list to a row or column of length \<open>n\<close>: numpy accepts a list of length
  \<open>n\<close>, broadcasts a list of length 1, and raises \<^verbatim>\<open>ValueError\<close> otherwise.
\<close>

definition broadcast :: "nat \<Rightarrow> cell list \<Rightarrow> error + cell list" where
  "broadcast n vals =
     (if length vals = n then Inr vals
      else if length vals = 1 then Inr (replicate n (hd vals))
      else Inl ValueError)"

definition get_col :: "nat \<Rightarrow> cell list list \<Rightarrow> cell list" where
  "get_col x b = map (\<lambda>row. row ! x) b"

definition set_row :: "nat \<Rightarrow> cell list \<Rightarrow> cell list list \<Rightarrow> cell list list" where
  "set_row y line b = b[y := line]"

definition set_col :: "nat \<Rightarrow> cell list \<Rightarrow> cell list list \<Rightarrow> cell list list" where
  "set_col x line b = map (\<lambda>rv. (fst rv)[x := snd rv]) (zip b line)"

text \<open>\<^verbatim>\<open>count_nonzero(self.board == None)\<close>\<close>

definition remaining_squares :: "PicrossBoard \<Rightarrow> nat" where
  "remaining_squares s = sum_list (map (\<lambda>row. count_list row None) (board s))"

subsection \<open>\<^verbatim>\<open>initial_possibilities\<close>\<close>

definition seed_row :: "nat \<Rightarrow> PicrossBoard \<Rightarrow> error + PicrossBoard" where
  "seed_row i s =
     (let line_poss = get_numsposs (verlist s ! i) (int (width s));
          s1 = s\<lparr>verposs := verposs s @ [line_poss]\<rparr>
      in case poss_intersection line_poss of
           Inl e \<Rightarrow> Inl e
         | Inr intersection \<Rightarrow>
             (case broadcast (width s) intersection of
                Inl e \<Rightarrow> Inl e
              | Inr line \<Rightarrow> Inr (s1\<lparr>board := set_row i line (board s1)\<rparr>)))"

definition seed_col :: "nat \<Rightarrow> PicrossBoard \<Rightarrow> error + PicrossBoard" where
  "seed_col i s =
     (let line_poss = get_numsposs (horlist s ! i) (int (height s));
          s1 = s\<lparr>horposs := horposs s @ [line_poss]\<rparr>
      in case poss_intersection line_poss of
           Inl e \<Rightarrow> Inl e
         | Inr intersection \<Rightarrow>
             (case combine_known_nums (get_col i (board s1)) intersection of
                Inl e \<Rightarrow> Inl e
              | Inr merged \<Rightarrow>
                  (case broadcast (height s) merged of
                     Inl e \<Rightarrow> Inl e
                   | Inr line \<Rightarrow> Inr (s1\<lparr>board := set_col i line (board s1)\<rparr>))))"

definition initial_possibilities :: "PicrossBoard \<Rightarrow> error + PicrossBoard" where
  "initial_possibilities s =
     (case fold_err seed_row [0..<length (verlist s)] (s\<lparr>verposs := []\<rparr>) of
        Inl e \<Rightarrow> Inl e
      | Inr s1 \<Rightarrow> fold_err seed_col [0..<length (horlist s1)] (s1\<lparr>horposs := []\<rparr>))"

subsection \<open>Candidate pruner: \<^verbatim>\<open>ruleout_rows\<close>, \<^verbatim>\<open>ruleout_cols\<close>\<close>

text \<open>
  The loop over \<^verbatim>\<open>enumerate(nums)\<close> from index \<open>i\<close> on: an unknown cell is skipped; at
  a known cell every pattern of a snapshot of the set is read at \<open>i\<close> (raising when one
  is too short) and removed when it differs.
\<close>

fun prune :: "nat \<Rightarrow> cell list \<Rightarrow> string list \<Rightarrow> error + string list" where
  "prune i [] possible = Inr possible"
| "prune i (None # nums) possible = prune (Suc i) nums possible"
| "prune i (Some c # nums) possible =
     (if list_ex (\<lambda>poss. length poss \<le> i) possible then Inl IndexError
      else prune (Suc i) nums (filter (\<lambda>poss. poss ! i = c) possible))"

text \<open>
  One line of a pass: \<open>nums\<close> are the line's cells, \<open>possible\<close> its candidate set and
  \<open>n\<close> its length. The result is the candidate set after the step and, when exactly
  one pattern is left, the cells to write.
\<close>

definition ruleout_line :: "nat \<Rightarrow> cell list \<Rightarrow> string list \<Rightarrow> error + (string list \<times> cell list option)" where
  "ruleout_line n nums possible =
     (if length possible = 1 then
        (case broadcast n (map Some (hd possible)) of
           Inl e \<Rightarrow> Inl e
         | Inr line \<Rightarrow> Inr (possible, Some line))
      else
        (case prune 0 nums possible of
           Inl e \<Rightarrow> Inl e
         | Inr possible' \<Rightarrow>
             if length possible' = 1 then
               (case broadcast n (map Some (hd possible')) of
                  Inl e \<Rightarrow> Inl e
                | Inr line \<Rightarrow> Inr (possible', Some line))
             else Inr (possible', None)))"

definition ruleout_row :: "nat \<Rightarrow> PicrossBoard \<Rightarrow> error + PicrossBoard" where
  "ruleout_row y s =
     (case ruleout_line (width s) (board s ! y) (verposs s ! y) of
        Inl e \<Rightarrow> Inl e
      | Inr (possible, w) \<Rightarrow>
          Inr (s\<lparr>verposs := (verposs s)[y := possible],
                 board := (case w of None \<Rightarrow> board s | Some line \<Rightarrow> set_row y line (board s))\<rparr>))"

definition ruleout_col :: "nat \<Rightarrow> PicrossBoard \<Rightarrow> error + PicrossBoard" where
  "ruleout_col x s =
     (case ruleout_line (height s) (get_col x (board s)) (horposs s ! x) of
        Inl e \<Rightarrow> Inl e
      | Inr (possible, w) \<Rightarrow>
          Inr (s\<lparr>horposs := (horposs s)[x := possible],
                 board := (case w of None \<Rightarrow> board s | Some line \<Rightarrow> set_col x line (board s))\<rparr>))"

definition ruleout_rows :: "PicrossBoard \<Rightarrow> error + PicrossBoard" where
  "ruleout_rows s = fold_err ruleout_row [0..<height s] s"

definition ruleout_cols :: "PicrossBoard \<Rightarrow> error + PicrossBoard" where
  "ruleout_cols s = fold_err ruleout_col [0..<width s] s"

section \<open>The unknown count never grows in a pass\<close>

text \<open>
  A pass only ever writes whole patterns, whose cells are all known. These facts carry
  the termination of the propagation loop below.
\<close>

lemma fold_err_mono:
  assumes "\<And>x s s'. f x s = Inr s' \<Longrightarrow> m s' \<le> (m s :: nat)"
  shows "fold_err f xs s = Inr s' \<Longrightarrow> m s' \<le> m s"
proof (induction xs arbitrary: s)
  case Nil
  then show ?case by simp
next
  case (Cons x xs)
  then obtain s1 where a: "f x s = Inr s1" and b: "fold_err f xs s1 = Inr s'"
    by (auto split: sum.splits)
  from assms[OF a] Cons.IH[OF b] show ?case by simp
qed

lemma count_update_known:
  "None \<notin> set line \<Longrightarrow>
   sum_list (map (\<lambda>row. count_list row None) (b[y := line]))
     \<le> sum_list (map (\<lambda>row. count_list row (None::cell)) b)"
proof (induction b arbitrary: y)
  case Nil
  then show ?case by simp
next
  case (Cons r b)
  show ?case
  proof (cases y)
    case 0
    with Cons.prems show ?thesis by (simp add: count_list_0_iff)
  next
    case (Suc k)
    with Cons show ?thesis by simp
  qed
qed

lemma count_list_upd_known:
  "count_list (row[x := Some c]) None \<le> count_list row (None::cell)"
proof (induction row arbitrary: x)
  case Nil
  then show ?case by simp
next
  case (Cons a row)
  then show ?case by (cases x) (auto simp: le_SucI)
qed

lemma count_set_col_known:
  "None \<notin> set line \<Longrightarrow>
   sum_list (map (\<lambda>row. count_list row None) (set_col x line b))
     \<le> sum_list (map (\<lambda>row. count_list row (None::cell)) b)"
proof (induction b arbitrary: line)
  case Nil
  then show ?case by (simp add: set_col_def)
next
  case (Cons r b)
  show ?case
  proof (cases line)
    case Nil
    then show ?thesis by (simp add: set_col_def)
  next
    case (Cons v vs)
    with Cons.prems obtain c where v: "v = Some c" by (cases v) auto
    from Cons Cons.prems have "None \<notin> set vs" by simp
    from Cons.IH[OF this] have "sum_list (map (\<lambda>row. count_list row None) (set_col x vs b))
     \<le> sum_list (map (\<lambda>row. count_list row (None::cell)) b)" .
    moreover have "count_list (r[x := Some c]) None \<le> count_list r (None::cell)"
      by (rule count_list_upd_known)
    ultimately show ?thesis using Cons v by (simp add: set_col_def)
  qed
qed

lemma broadcast_known:
  "broadcast n (map Some p) = Inr line \<Longrightarrow> None \<notin> set line"
  by (cases p) (auto simp: broadcast_def split: if_splits)

lemma ruleout_line_known:
  "ruleout_line n nums possible = Inr (possible', Some line) \<Longrightarrow> None \<notin> set line"
  by (auto simp: ruleout_line_def split: if_splits sum.splits dest: broadcast_known)

lemma ruleout_row_remaining:
  "ruleout_row y s = Inr s' \<Longrightarrow> remaining_squares s' \<le> remaining_squares s"
  by (auto simp: ruleout_row_def remaining_squares_def set_row_def
        split: sum.splits option.splits dest!: ruleout_line_known intro: count_update_known)

lemma ruleout_col_remaining:
  "ruleout_col x s = Inr s' \<Longrightarrow> remaining_squares s' \<le> remaining_squares s"
  by (auto simp: ruleout_col_def remaining_squares_def
        split: sum.splits option.splits dest!: ruleout_line_known intro: count_set_col_known)

lemma ruleout_rows_remaining:
  "ruleout_rows s = Inr s' \<Longrightarrow> remaining_squares s' \<le> remaining_squares s"
  unfolding ruleout_rows_def by (rule fold_err_mono[where m = remaining_squares, OF ruleout_row_remaining])

lemma ruleout_cols_remaining:
  "ruleout_cols s = Inr s' \<Longrightarrow> remaining_squares s' \<le> remaining_squares s"
  unfolding ruleout_cols_def by (rule fold_err_mono[where m = remaining_squares, OF ruleout_col_remaining])

section \<open>\<^verbatim>\<open>solve\<close>\<close>

text \<open>
  What \<^verbatim>\<open>solve\<close> hands back: \<^verbatim>\<open>return self\<close> or \<^verbatim>\<open>return None\<close>. The model returns
  the state of the board object at that moment together with the returned value; an
  escaping exception is \<open>Inl\<close>.

  \<open>propagate\<close> is the \<^verbatim>\<open>while\<close> loop: \<open>stuckcheck\<close> is the count on entry of the
  cycle.
\<close>

datatype retval = RetSelf | RetNone

function propagate :: "PicrossBoard \<Rightarrow> error + (PicrossBoard \<times> retval)" where
  "propagate s =
     (if remaining_squares s = 0 then Inr (s, RetSelf)
      else case ruleout_rows s of
             Inl e \<Rightarrow> Inl e
           | Inr s1 \<Rightarrow>
               (case ruleout_cols s1 of
                  Inl e \<Rightarrow> Inl e
                | Inr s2 \<Rightarrow>
                    if remaining_squares s = remaining_squares s2 then Inr (s2, RetNone)
                    else propagate s2))"
  by pat_completeness auto
termination
proof (relation "measure remaining_squares")
  show "wf (measure remaining_squares)" by simp
next
  fix s s1 s2
  assume "ruleout_rows s = Inr s1" "ruleout_cols s1 = Inr s2"
    "remaining_squares s \<noteq> remaining_squares s2"
  then show "(s2, s) \<in> measure remaining_squares"
    using ruleout_rows_remaining[of s s1] ruleout_cols_remaining[of s1 s2] by simp
qed

declare propagate.simps [simp del]

definition solve :: "PicrossBoard \<Rightarrow> error + (PicrossBoard \<times> retval)" where
  "solve s =
     (case initial_possibilities s of
        Inl e \<Rightarrow> Inl e
      | Inr s1 \<Rightarrow> propagate s1)"

text \<open>
  One cycle of the loop that makes progress: entered with unknown cells left, both passes
  return, and the count has changed, so the loop goes on from \<open>t\<close>.
\<close>

definition progressing_cycle :: "PicrossBoard \<Rightarrow> PicrossBoard \<Rightarrow> bool" where
  "progressing_cycle s t =
     (remaining_squares s \<noteq> 0 \<and>
      (case ruleout_rows s of
         Inl e \<Rightarrow> False
       | Inr s1 \<Rightarrow> ruleout_cols s1 = Inr t) \<and>
      remaining_squares t \<noteq> remaining_squares s)"

text \<open>
  The same loop allowed at most \<open>n\<close> row+column cycles: \<open>None\<close> when it would have to
  start one more.
\<close>

fun propagate_within :: "nat \<Rightarrow> PicrossBoard \<Rightarrow> (error + (PicrossBoard \<times> retval)) option" where
  "propagate_within n s =
     (if remaining_squares s = 0 then Some (Inr (s, RetSelf))
      else case n of
             0 \<Rightarrow> None
           | Suc k \<Rightarrow>
               (case ruleout_rows s of
                  Inl e \<Rightarrow> Some (Inl e)
                | Inr s1 \<Rightarrow>
                    (case ruleout_cols s1 of
                       Inl e \<Rightarrow> Some (Inl e)
                     | Inr s2 \<Rightarrow>
                         if remaining_squares s = remaining_squares s2 then Some (Inr (s2, RetNone))
                         else propagate_within k s2)))"

declare propagate_within.simps [simp del]

section \<open>Claims about \<^verbatim>\<open>solve\<close>: what it returns\<close>

text \<open>
  Counterexample to C1 as stated: on the 2 by 2 puzzle with hint \<open>1\<close> on every line
  (\<^verbatim>\<open>board3\<close> of the source's main block) the propagation stalls with all four cells
  unknown, and \<^verbatim>\<open>solve\<close> returns \<^verbatim>\<open>None\<close>, not the board.
\<close>

theorem solve_stalled_returns_None:
  "solve (construct [[1], [1]] [[1], [1]]) =
     Inr (\<lparr>verlist = [[1], [1]], horlist = [[1], [1]], height = 2, width = 2,
           board = [[None, None], [None, None]],
           verposs = [[''10'', ''01''], [''10'', ''01'']],
           horposs = [[''10'', ''01''], [''10'', ''01'']]\<rparr>, RetNone)"
  by code_simp

text \<open>
  The loop's result, traced back: it is reached from the loop's entry state by cycles that
  each made progress, and it is either that reached state with no unknown cell, or the
  state one further cycle produced from it without changing the count.
\<close>

lemma propagate_outcome:
  "propagate s = Inr (s', r) \<Longrightarrow>
     \<exists>t. rtranclp progressing_cycle s t \<and>
       ((r = RetSelf \<and> s' = t \<and> remaining_squares s' = 0) \<or>
        (r = RetNone \<and> 0 < remaining_squares s' \<and>
         (\<exists>t1. ruleout_rows t = Inr t1 \<and> ruleout_cols t1 = Inr s') \<and>
         remaining_squares s' = remaining_squares t))"
proof (induction s rule: propagate.induct)
  case (1 s)
  show ?case
  proof (cases "remaining_squares s = 0")
    case True
    with "1.prems" have "r = RetSelf" "s' = s" by (simp_all add: propagate.simps[of s])
    with True show ?thesis by blast
  next
    case nz: False
    with "1.prems" obtain s1 s2 where rw: "ruleout_rows s = Inr s1" and cl: "ruleout_cols s1 = Inr s2"
      by (auto simp: propagate.simps[of s] split: sum.splits)
    show ?thesis
    proof (cases "remaining_squares s = remaining_squares s2")
      case True
      with nz rw cl "1.prems" have "r = RetNone" "s' = s2" by (simp_all add: propagate.simps[of s])
      with True nz rw cl show ?thesis by (intro exI[of _ s]) auto
    next
      case ne: False
      with nz rw cl "1.prems" have "propagate s2 = Inr (s', r)" by (simp add: propagate.simps[of s])
      from "1.IH"[OF nz rw cl ne this] obtain t where reach: "rtranclp progressing_cycle s2 t"
        and out: "(r = RetSelf \<and> s' = t \<and> remaining_squares s' = 0) \<or>
        (r = RetNone \<and> 0 < remaining_squares s' \<and>
         (\<exists>t1. ruleout_rows t = Inr t1 \<and> ruleout_cols t1 = Inr s') \<and>
         remaining_squares s' = remaining_squares t)" by blast
      from nz rw cl ne have "progressing_cycle s s2" by (simp add: progressing_cycle_def)
      from this reach have "rtranclp progressing_cycle s t" by (rule converse_rtranclp_into_rtranclp)
      with out show ?thesis by blast
    qed
  qed
qed

text \<open>
  C1 (amended): whenever \<^verbatim>\<open>solve\<close> finishes without an exception, it has mutated the board
  and ended in one of two ways, after seeding and some number of cycles that each changed
  the count of unknown cells. Solved: the state reached has no unknown cell, and the board
  itself is returned. Stalled: one more full row+column cycle has left the count
  unchanged and above zero, and \<^verbatim>\<open>None\<close> is returned while the mutated board object
  keeps the partial grid that cycle produced.
\<close>

theorem solve_outcome:
  "solve s = Inr (s', r) \<Longrightarrow>
     \<exists>s1 t. initial_possibilities s = Inr s1 \<and> rtranclp progressing_cycle s1 t \<and>
       ((r = RetSelf \<and> s' = t \<and> remaining_squares s' = 0) \<or>
        (r = RetNone \<and> 0 < remaining_squares s' \<and>
         (\<exists>t1. ruleout_rows t = Inr t1 \<and> ruleout_cols t1 = Inr s') \<and>
         remaining_squares s' = remaining_squares t))"
proof -
  assume "solve s = Inr (s', r)"
  then obtain s1 where i: "initial_possibilities s = Inr s1" and p: "propagate s1 = Inr (s', r)"
    by (auto simp: solve_def split: sum.splits)
  from propagate_outcome[OF p] i show ?thesis by blast
qed

text \<open>
  Witness for C1 (amended): the 3 by 6 puzzle of the class docstring is solved, the board
  is returned and holds the docstring's grid.
\<close>

theorem solve_outcome_witness:
  "solve (construct [[3], [1, 2, 1], [1, 3]] [[3], [1], [3], [2], [1], [1]]) =
     Inr (\<lparr>verlist = [[3], [1], [3], [2], [1], [1]],
           horlist = [[3], [1, 2, 1], [1, 3]], height = 6, width = 3,
           board =
             [[Some CHR ''1'', Some CHR ''1'', Some CHR ''1''],
              [Some CHR ''1'', Some CHR ''0'', Some CHR ''0''],
              [Some CHR ''1'', Some CHR ''1'', Some CHR ''1''],
              [Some CHR ''0'', Some CHR ''1'', Some CHR ''1''],
              [Some CHR ''0'', Some CHR ''0'', Some CHR ''1''],
              [Some CHR ''0'', Some CHR ''1'', Some CHR ''0'']],
           verposs = [[''111''], [''100'', ''001''], [''111''], [''011''], [''001''], [''010'']],
           horposs = [[''111000''], [''101101''], [''101110'']]\<rparr>, RetSelf)
   \<and> remaining_squares
        \<lparr>verlist = [[3], [1], [3], [2], [1], [1]],
         horlist = [[3], [1, 2, 1], [1, 3]], height = 6, width = 3,
         board =
           [[Some CHR ''1'', Some CHR ''1'', Some CHR ''1''],
            [Some CHR ''1'', Some CHR ''0'', Some CHR ''0''],
            [Some CHR ''1'', Some CHR ''1'', Some CHR ''1''],
            [Some CHR ''0'', Some CHR ''1'', Some CHR ''1''],
            [Some CHR ''0'', Some CHR ''0'', Some CHR ''1''],
            [Some CHR ''0'', Some CHR ''1'', Some CHR ''0'']],
         verposs = [[''111''], [''100'', ''001''], [''111''], [''011''], [''001''], [''010'']],
         horposs = [[''111000''], [''101101''], [''101110'']]\<rparr> = 0"
  (is "?run = Inr (?final, RetSelf) \<and> _")
proof -
  have h: "?run = Inr (?final, RetSelf)" by code_simp
  from solve_outcome[OF h] have "remaining_squares ?final = 0" by blast
  with h show ?thesis by simp
qed

section \<open>Claims about the enumerator: the empty block sequence\<close>



section \<open>Claims about failure outcomes\<close>

lemma prune_nil: "prune i nums [] = Inr []"
  by (induction i nums "[] :: string list" rule: prune.induct) auto

text \<open>
  Counterexample to C3 as stated: for the hint \<open>5\<close> on a line of length 1 the enumerator
  returns the empty set without raising; the board is constructed in either orientation,
  and the failure only shows in \<^verbatim>\<open>solve\<close>, as the \<^verbatim>\<open>IndexError\<close> of
  \<^verbatim>\<open>line_poss[0]\<close> on the empty set.
\<close>

theorem infeasible_hint_raises_IndexError_in_solve:
  "get_numsposs [5] 1 = [] \<and>
   solve (construct [[1]] [[5]]) = Inl IndexError \<and>
   solve (construct [[5]] [[1]]) = Inl IndexError"
  by code_simp

text \<open>
  C3 (amended): for every hint other than \<^verbatim>\<open>[]\<close> and \<^verbatim>\<open>[0]\<close> whose freedom is
  negative, the enumerator raises nothing and returns the empty candidate set; the
  failure surfaces when the intersector is run on that set, as an \<^verbatim>\<open>IndexError\<close>.
\<close>

theorem negative_freedom_enumerates_nothing:
  "nums \<noteq> [] \<Longrightarrow> nums \<noteq> [0] \<Longrightarrow> deg_of_free nums remain_len < 0 \<Longrightarrow>
     get_numsposs nums remain_len = [] \<and>
     poss_intersection (get_numsposs nums remain_len) = Inl IndexError"
proof -
  assume a: "nums \<noteq> []" "nums \<noteq> [0]" "deg_of_free nums remain_len < 0"
  have "get_numsposs nums remain_len = []"
  proof (cases nums)
    case Nil
    with a show ?thesis by simp
  next
    case (Cons n ns)
    with a show ?thesis by (cases ns) auto
  qed
  then show ?thesis by (simp add: poss_intersection_def)
qed

text \<open>Witness for C3 (amended): the hint \<open>5\<close> on a line of length 1.\<close>

theorem negative_freedom_enumerates_nothing_witness:
  "[5] \<noteq> ([] :: int list) \<and> [5] \<noteq> [0 :: int] \<and> deg_of_free [5] 1 < 0 \<and>
   get_numsposs [5] 1 = [] \<and> poss_intersection (get_numsposs [5] 1) = Inl IndexError"
proof -
  have h1: "[5] \<noteq> ([] :: int list)" and h2: "[5] \<noteq> [0 :: int]"
    and h3: "deg_of_free [5] 1 < 0" by (simp_all add: deg_of_free_def)
  from negative_freedom_enumerates_nothing[OF h1 h2 h3] h1 h2 h3 show ?thesis by simp
qed

section \<open>Claims about the intersector\<close>

lemma collect_map_Inr:
  "(\<And>x. x \<in> set xs \<Longrightarrow> f x = Inr (g x)) \<Longrightarrow> collect (map f xs) = Inr (map g xs)"
  by (induction xs) auto

lemma check_pos_agree:
  "\<forall>q\<in>set others. i < length q \<Longrightarrow>
   check_pos others (i, c) = Inr (if (\<forall>q\<in>set others. q ! i = c) then Some c else None)"
  by (induction others) (auto simp: not_le)

lemma in_set_enumerate0:
  "x \<in> set (enumerate 0 xs) \<Longrightarrow> fst x < length xs \<and> snd x = xs ! fst x"
  by (cases x) (auto simp: in_set_enumerate_eq)

lemma validate_all_positions:
  assumes len: "\<forall>q\<in>set others. length q = length first"
  shows "collect (map (check_pos others) (enumerate 0 first))
           = Inr (map (\<lambda>i. if (\<forall>q\<in>set others. q ! i = first ! i) then Some (first ! i) else None)
                      [0..<length first])"
proof -
  have "collect (map (check_pos others) (enumerate 0 first))
      = Inr (map (\<lambda>ic. if (\<forall>q\<in>set others. q ! fst ic = snd ic) then Some (snd ic) else None)
                (enumerate 0 first))"
  proof (rule collect_map_Inr)
    fix x assume "x \<in> set (enumerate 0 first)"
    then have "fst x < length first" by (rule in_set_enumerate0[THEN conjunct1])
    with len have "\<forall>q\<in>set others. fst x < length q" by simp
    from check_pos_agree[OF this, of "snd x"]
    show "check_pos others x =
       Inr (if (\<forall>q\<in>set others. q ! fst x = snd x) then Some (snd x) else None)" by simp
  qed
  moreover have "map (\<lambda>ic. if (\<forall>q\<in>set others. q ! fst ic = snd ic) then Some (snd ic) else None)
                (enumerate 0 first)
     = map (\<lambda>i. if (\<forall>q\<in>set others. q ! i = first ! i) then Some (first ! i) else None)
                      [0..<length first]"
    by (rule nth_equalityI) (simp_all add: nth_enumerate_eq)
  ultimately show ?thesis by simp
qed


lemma poss_intersection_eq:
  assumes ne: "line_poss \<noteq> []"
    and len: "\<forall>p\<in>set line_poss. length p = n"
  shows "poss_intersection line_poss =
           Inr (map (\<lambda>i. if (\<forall>p\<in>set line_poss. \<forall>q\<in>set line_poss. p ! i = q ! i)
                          then Some (hd line_poss ! i) else None) [0..<n])"
proof -
  from ne obtain first others where lp: "line_poss = first # others" by (cases line_poss) auto
  with len have lf: "length first = n" and lo: "\<forall>q\<in>set others. length q = length first"
    by auto
  have iff: "(\<forall>p\<in>set line_poss. \<forall>q\<in>set line_poss. p ! i = q ! i)
               \<longleftrightarrow> (\<forall>q\<in>set others. q ! i = first ! i)" for i
    unfolding lp by auto
  have general: "collect (map (check_pos others) (enumerate 0 first)) =
           Inr (map (\<lambda>i. if (\<forall>p\<in>set line_poss. \<forall>q\<in>set line_poss. p ! i = q ! i)
                          then Some (hd line_poss ! i) else None) [0..<n])"
    unfolding validate_all_positions[OF lo] iff by (simp add: lp lf)
  show ?thesis
  proof (cases others)
    case Nil
    have "map Some first = map (\<lambda>i. if (\<forall>q\<in>set others. q ! i = first ! i)
                          then Some (first ! i) else None) [0..<n]"
      by (rule nth_equalityI) (simp_all add: Nil lf)
    with Nil lp show ?thesis unfolding iff by (simp add: poss_intersection_def)
  next
    case (Cons q qs)
    with lp have "poss_intersection line_poss = collect (map (check_pos others) (enumerate 0 first))"
      by (simp add: poss_intersection_def)
    with general show ?thesis by simp
  qed
qed

text \<open>
  C7: for every non-empty set of patterns of one length \<open>n\<close>, in whatever order
  \<^verbatim>\<open>tuple(line_poss)\<close> lists it, the intersector returns a sequence of length \<open>n\<close> that
  holds at each position the common value when all patterns agree there and \<^verbatim>\<open>None\<close>
  when two of them differ; on a singleton set it returns that pattern's values, none of
  them unknown; and the set object is the same after the call.
\<close>

theorem poss_intersection_spec:
  assumes ne: "line_poss \<noteq> []"
    and len: "\<forall>p\<in>set line_poss. length p = n"
  shows "poss_intersection line_poss =
           Inr (map (\<lambda>i. if (\<forall>p\<in>set line_poss. \<forall>q\<in>set line_poss. p ! i = q ! i)
                          then Some (hd line_poss ! i) else None) [0..<n]) \<and>
         (\<forall>p. set line_poss = {p} \<longrightarrow> poss_intersection line_poss = Inr (map Some p)) \<and>
         fst (poss_intersection_call line_poss) = line_poss"
proof (intro conjI allI impI)
  show "poss_intersection line_poss =
           Inr (map (\<lambda>i. if (\<forall>p\<in>set line_poss. \<forall>q\<in>set line_poss. p ! i = q ! i)
                          then Some (hd line_poss ! i) else None) [0..<n])"
    by (rule poss_intersection_eq[OF ne len])
next
  fix p assume single: "set line_poss = {p}"
  with ne have hd: "hd line_poss = p" by (cases line_poss) auto
  from single len have lp: "length p = n" by simp
  have "map (\<lambda>i. if (\<forall>p\<in>set line_poss. \<forall>q\<in>set line_poss. p ! i = q ! i)
                          then Some (hd line_poss ! i) else None) [0..<n] = map Some p"
    by (rule nth_equalityI) (simp_all add: single hd lp)
  with poss_intersection_eq[OF ne len] show "poss_intersection line_poss = Inr (map Some p)"
    by simp
next
  show "fst (poss_intersection_call line_poss) = line_poss"
    by (simp add: poss_intersection_call_def)
qed

text \<open>Witness for C7: the example of the source's docstring.\<close>

theorem poss_intersection_spec_witness:
  "[''10110'', ''10011''] \<noteq> [] \<and> list_all (\<lambda>p. length p = 5) [''10110'', ''10011''] \<and>
   poss_intersection [''10110'', ''10011''] =
     Inr [Some CHR ''1'', Some CHR ''0'', None, Some CHR ''1'', None]"
proof -
  have h1: "[''10110'', ''10011''] \<noteq> []" and h2: "\<forall>p\<in>set [''10110'', ''10011'']. length p = 5"
    by simp_all
  have e: "map (\<lambda>i. if (\<forall>p\<in>set [''10110'', ''10011'']. \<forall>q\<in>set [''10110'', ''10011'']. p ! i = q ! i)
                          then Some (hd [''10110'', ''10011''] ! i) else None) [0..<5]
      = [Some CHR ''1'', Some CHR ''0'', None, Some CHR ''1'', None]"
    by code_simp
  from poss_intersection_spec[OF h1 h2, THEN conjunct1] h1 show ?thesis
    unfolding e by simp
qed

section \<open>Facts about sequencing, merging and loops over lines\<close>

lemma collect_Inr_nth:
  "collect xs = Inr ys \<Longrightarrow> length ys = length xs \<and> (\<forall>i<length xs. xs ! i = Inr (ys ! i))"
proof (induction xs arbitrary: ys)
  case Nil
  then show ?case by simp
next
  case (Cons x xs)
  show ?case
  proof (cases x)
    case (Inl e)
    with Cons.prems show ?thesis by simp
  next
    case (Inr v)
    with Cons.prems obtain vs where vs: "collect xs = Inr vs" and ys: "ys = v # vs"
      by (auto split: sum.splits)
    from Cons.IH[OF vs] Inr ys show ?thesis by (auto simp: nth_Cons split: nat.splits)
  qed
qed

lemma combine_known_nums_Inr:
  assumes "combine_known_nums numsA numsB = Inr merged"
  shows "length merged = length numsA"
    and "i < length numsA \<Longrightarrow> merged ! i = (case numsA ! i of Some c \<Rightarrow> Some c | None \<Rightarrow> numsB ! i)"
proof -
  from collect_Inr_nth[OF assms[unfolded combine_known_nums_def]]
  have l: "length merged = length numsA"
    and n: "\<forall>i<length numsA. known_or numsB (i, numsA ! i) = Inr (merged ! i)"
    by (simp_all add: nth_enumerate_eq)
  show "length merged = length numsA" by (rule l)
  assume "i < length numsA"
  with n have "known_or numsB (i, numsA ! i) = Inr (merged ! i)" by simp
  then show "merged ! i = (case numsA ! i of Some c \<Rightarrow> Some c | None \<Rightarrow> numsB ! i)"
    by (auto simp: known_or_def split: option.splits if_splits)
qed

lemma combine_known_nums_total:
  assumes "length numsA \<le> length numsB"
  shows "combine_known_nums numsA numsB =
     Inr (map (\<lambda>ab. case fst ab of Some c \<Rightarrow> Some c | None \<Rightarrow> snd ab) (zip numsA numsB))"
proof -
  have "collect (map (known_or numsB) (enumerate 0 numsA)) =
     Inr (map (\<lambda>ia. case snd ia of Some c \<Rightarrow> Some c | None \<Rightarrow> numsB ! fst ia) (enumerate 0 numsA))"
  proof (rule collect_map_Inr)
    fix x assume "x \<in> set (enumerate 0 numsA)"
    then have "fst x < length numsA" by (rule in_set_enumerate0[THEN conjunct1])
    with assms show "known_or numsB x = Inr (case snd x of Some c \<Rightarrow> Some c | None \<Rightarrow> numsB ! fst x)"
      by (simp add: known_or_def split: option.splits)
  qed
  moreover have "map (\<lambda>ia. case snd ia of Some c \<Rightarrow> Some c | None \<Rightarrow> numsB ! fst ia) (enumerate 0 numsA)
     = map (\<lambda>ab. case fst ab of Some c \<Rightarrow> Some c | None \<Rightarrow> snd ab) (zip numsA numsB)"
    using assms by (intro nth_equalityI) (auto simp: nth_enumerate_eq split: option.splits)
  ultimately show ?thesis by (simp add: combine_known_nums_def)
qed

text \<open>A loop returns when each of its steps does, under an invariant.\<close>

lemma fold_err_total:
  assumes "\<And>i s. i \<in> set js \<Longrightarrow> I s \<Longrightarrow> \<exists>s'. f i s = Inr s' \<and> I s'"
  shows "I s \<Longrightarrow> \<exists>s'. fold_err f js s = Inr s' \<and> I s'"
  using assms
proof (induction js arbitrary: s)
  case Nil
  then show ?case by simp
next
  case (Cons i js)
  from Cons.prems(2)[of i s] Cons.prems(1) obtain s1 where a: "f i s = Inr s1" and b: "I s1"
    by auto
  have "\<exists>s'. fold_err f js s1 = Inr s' \<and> I s'"
    by (rule Cons.IH[OF b]) (rule Cons.prems(2), simp_all)
  with a show ?case by simp
qed

text \<open>
  A loop over distinct line indices in which the step for line \<open>i\<close> needs \<open>F i\<close>,
  establishes \<open>P i\<close>, and leaves \<open>P j\<close> and \<open>F j\<close> of every other line alone.
\<close>

lemma fold_err_lines:
  assumes step: "\<And>i s s'. f i s = Inr s' \<Longrightarrow> I s \<Longrightarrow> F i s \<Longrightarrow> I s' \<and> P i s'"
    and frame: "\<And>i j s s'. f i s = Inr s' \<Longrightarrow> I s \<Longrightarrow> j \<noteq> i \<Longrightarrow>
                  (P j s \<longrightarrow> P j s') \<and> (F j s \<longrightarrow> F j s')"
  shows "fold_err f js s = Inr s' \<Longrightarrow> I s \<Longrightarrow> distinct js \<Longrightarrow> \<forall>j\<in>set js. F j s \<Longrightarrow>
         \<forall>j\<in>D. P j s \<Longrightarrow> D \<inter> set js = {} \<Longrightarrow>
         I s' \<and> (\<forall>j\<in>D \<union> set js. P j s')"
proof (induction js arbitrary: s D)
  case Nil
  then show ?case by simp
next
  case (Cons i js)
  from Cons.prems(1) obtain s1 where s1: "f i s = Inr s1" and rest: "fold_err f js s1 = Inr s'"
    by (auto split: sum.splits)
  from Cons.prems have Fi: "F i s" by simp
  from step[OF s1 Cons.prems(2) Fi] have I1: "I s1" and Pi: "P i s1" by simp_all
  have F1: "\<forall>j\<in>set js. F j s1"
  proof
    fix j assume j: "j \<in> set js"
    with Cons.prems(3) have "j \<noteq> i" by auto
    from frame[OF s1 Cons.prems(2) this] Cons.prems(4) j show "F j s1" by simp
  qed
  have P1: "\<forall>j\<in>insert i D. P j s1"
  proof
    fix j assume j: "j \<in> insert i D"
    show "P j s1"
    proof (cases "j = i")
      case True
      with Pi show ?thesis by simp
    next
      case False
      with j have jD: "j \<in> D" by simp
      from frame[OF s1 Cons.prems(2) False] Cons.prems(5) jD show ?thesis by simp
    qed
  qed
  have dj: "insert i D \<inter> set js = {}" using Cons.prems(3,6) by auto
  from Cons.prems(3) have "distinct js" by simp
  from Cons.IH[OF rest I1 this F1 P1 dj] show ?case by auto
qed

section \<open>Seeding: \<^verbatim>\<open>initial_possibilities\<close> on a constructed board\<close>

lemma fold_err_inv:
  assumes "\<And>i s s'. f i s = Inr s' \<Longrightarrow> I s \<Longrightarrow> I s'"
  shows "fold_err f js s = Inr s' \<Longrightarrow> I s \<Longrightarrow> I s'"
proof (induction js arbitrary: s)
  case Nil
  then show ?case by simp
next
  case (Cons i js)
  then obtain s1 where a: "f i s = Inr s1" and b: "fold_err f js s1 = Inr s'"
    by (auto split: sum.splits)
  from Cons.IH[OF b assms[OF a Cons.prems(2)]] show ?case .
qed

lemma fold_err_count:
  assumes "\<And>i s s'. f i s = Inr s' \<Longrightarrow> m s' = Suc (m s)"
  shows "fold_err f js s = Inr s' \<Longrightarrow> m s' = m s + length js"
proof (induction js arbitrary: s)
  case Nil
  then show ?case by simp
next
  case (Cons i js)
  then obtain s1 where a: "f i s = Inr s1" and b: "fold_err f js s1 = Inr s'"
    by (auto split: sum.splits)
  from Cons.IH[OF b] assms[OF a] show ?case by simp
qed

lemma broadcast_length: "broadcast n vals = Inr line \<Longrightarrow> length line = n"
  by (auto simp: broadcast_def split: if_splits)

lemma broadcast_same: "length vals = n \<Longrightarrow> broadcast n vals = Inr vals"
  by (simp add: broadcast_def)

lemma shaped_iff:
  "shaped s \<longleftrightarrow> length (board s) = height s \<and> (\<forall>y<height s. length (board s ! y) = width s)"
  by (auto simp: shaped_def list_all_length)

lemma shaped_construct: "shaped (construct horl verl)"
  by (simp add: shaped_iff construct_def)

lemma length_set_col: "length line = length b \<Longrightarrow> length (set_col x line b) = length b"
  by (simp add: set_col_def)

lemma nth_set_col:
  "length line = length b \<Longrightarrow> y < length b \<Longrightarrow> set_col x line b ! y = (b ! y)[x := line ! y]"
  by (simp add: set_col_def)

lemma get_col_set_col_other:
  "length line = length b \<Longrightarrow> j \<noteq> x \<Longrightarrow> get_col j (set_col x line b) = get_col j b"
  by (rule nth_equalityI) (simp_all add: get_col_def length_set_col nth_set_col)

lemma seed_row_fields:
  assumes "seed_row i s = Inr s'"
  shows "height s' = height s" "width s' = width s" "verlist s' = verlist s"
    "horlist s' = horlist s" "horposs s' = horposs s"
    "verposs s' = verposs s @ [get_numsposs (verlist s ! i) (int (width s))]"
    "\<exists>rowI line. poss_intersection (get_numsposs (verlist s ! i) (int (width s))) = Inr rowI \<and>
        broadcast (width s) rowI = Inr line \<and> board s' = (board s)[i := line]"
  using assms by (auto simp: seed_row_def Let_def set_row_def split: sum.splits)

lemma seed_col_fields:
  assumes "seed_col i s = Inr s'" and "shaped s"
  shows "height s' = height s" "width s' = width s" "verlist s' = verlist s"
    "horlist s' = horlist s" "verposs s' = verposs s"
    "horposs s' = horposs s @ [get_numsposs (horlist s ! i) (int (height s))]"
    "\<exists>colI merged. poss_intersection (get_numsposs (horlist s ! i) (int (height s))) = Inr colI \<and>
        combine_known_nums (get_col i (board s)) colI = Inr merged \<and>
        length merged = height s \<and> board s' = set_col i merged (board s)"
proof -
  from assms(1) obtain colI merged line
    where c: "poss_intersection (get_numsposs (horlist s ! i) (int (height s))) = Inr colI"
      and m: "combine_known_nums (get_col i (board s)) colI = Inr merged"
      and b: "broadcast (height s) merged = Inr line"
      and s': "s' = s\<lparr>horposs := horposs s @ [get_numsposs (horlist s ! i) (int (height s))],
                       board := set_col i line (board s)\<rparr>"
    by (auto simp: seed_col_def Let_def split: sum.splits)
  from combine_known_nums_Inr(1)[OF m] assms(2) have lm: "length merged = height s"
    by (simp add: get_col_def shaped_iff)
  with b have "line = merged" by (simp add: broadcast_same)
  with c m lm s' show "height s' = height s" "width s' = width s" "verlist s' = verlist s"
    "horlist s' = horlist s" "verposs s' = verposs s"
    "horposs s' = horposs s @ [get_numsposs (horlist s ! i) (int (height s))]"
    "\<exists>colI merged. poss_intersection (get_numsposs (horlist s ! i) (int (height s))) = Inr colI \<and>
        combine_known_nums (get_col i (board s)) colI = Inr merged \<and>
        length merged = height s \<and> board s' = set_col i merged (board s)"
    by simp_all
qed

lemma shaped_row_update:
  "shaped s \<Longrightarrow> length line = width s \<Longrightarrow> height s' = height s \<Longrightarrow> width s' = width s \<Longrightarrow>
   board s' = (board s)[i := line] \<Longrightarrow> shaped s'"
  by (cases "i < height s") (auto simp: shaped_iff nth_list_update)

lemma shaped_col_update:
  "shaped s \<Longrightarrow> length line = height s \<Longrightarrow> height s' = height s \<Longrightarrow> width s' = width s \<Longrightarrow>
   board s' = set_col x line (board s) \<Longrightarrow> shaped s'"
  by (auto simp: shaped_iff length_set_col nth_set_col)

lemma seed_row_shaped: "seed_row i s = Inr s' \<Longrightarrow> shaped s \<Longrightarrow> shaped s'"
  using seed_row_fields[of i s s'] by (auto intro: shaped_row_update dest: broadcast_length)

lemma seed_col_shaped: "seed_col i s = Inr s' \<Longrightarrow> shaped s \<Longrightarrow> shaped s'"
  using seed_col_fields[of i s s'] by (auto intro: shaped_col_update)


lemma seed_row_inv: "seed_row i s = Inr s' \<Longrightarrow> seed_inv h w hl vl s \<Longrightarrow> seed_inv h w hl vl s'"
  using seed_row_fields[of i s s'] seed_row_shaped[of i s s'] by (simp add: seed_inv_def)

lemma seed_col_inv: "seed_col i s = Inr s' \<Longrightarrow> seed_inv h w hl vl s \<Longrightarrow> seed_inv h w hl vl s'"
  using seed_col_fields[of i s s'] seed_col_shaped[of i s s'] by (simp add: seed_inv_def)

lemma rows_seeded:
  assumes run: "fold_err seed_row [0..<h] s = Inr s1" and inv: "seed_inv h w hl vl s"
  shows "seed_inv h w hl vl s1"
    and "y < h \<Longrightarrow> \<exists>rowI line. poss_intersection (get_numsposs (vl ! y) (int w)) = Inr rowI \<and>
            broadcast w rowI = Inr line \<and> board s1 ! y = line"
proof -
  let ?P = "\<lambda>y s. y < h \<longrightarrow> (\<exists>rowI line. poss_intersection (get_numsposs (vl ! y) (int w)) = Inr rowI \<and>
            broadcast w rowI = Inr line \<and> board s ! y = line)"
  have step: "seed_inv h w hl vl t' \<and> ?P i t'"
    if "seed_row i t = Inr t'" "seed_inv h w hl vl t" "True" for i t t'
    using seed_row_fields(7)[OF that(1)] seed_row_inv[OF that(1,2)] that(2)
    by (auto simp: seed_inv_def shaped_iff)
  have frame: "(?P j t \<longrightarrow> ?P j t') \<and> (True \<longrightarrow> True)"
    if "seed_row i t = Inr t'" "seed_inv h w hl vl t" "j \<noteq> i" for i j t t'
    using seed_row_fields(7)[OF that(1)] that(3) by auto
  have "seed_inv h w hl vl s1 \<and> (\<forall>j\<in>{} \<union> set [0..<h]. ?P j s1)"
  proof (rule fold_err_lines[where f = seed_row and I = "seed_inv h w hl vl"
        and F = "\<lambda>_ _. True" and P = ?P and D = "{}"])
    fix i t t' assume "seed_row i t = Inr t'" "seed_inv h w hl vl t" "True"
    then show "seed_inv h w hl vl t' \<and> ?P i t'" by (rule step)
  next
    fix i j t t' assume "seed_row i t = Inr t'" "seed_inv h w hl vl t" "j \<noteq> i"
    then show "(?P j t \<longrightarrow> ?P j t') \<and> (True \<longrightarrow> True)" by (rule frame)
  qed (rule run, rule inv, auto)
  then show "seed_inv h w hl vl s1"
    and "y < h \<Longrightarrow> \<exists>rowI line. poss_intersection (get_numsposs (vl ! y) (int w)) = Inr rowI \<and>
            broadcast w rowI = Inr line \<and> board s1 ! y = line"
    by auto
qed

lemma cols_seeded:
  assumes run: "fold_err seed_col [0..<w] s = Inr s2" and inv: "seed_inv h w hl vl s"
  shows "seed_inv h w hl vl s2"
    and "x < w \<Longrightarrow> \<exists>colI. poss_intersection (get_numsposs (hl ! x) (int h)) = Inr colI \<and>
            (\<forall>y<h. board s2 ! y ! x = (case board s ! y ! x of Some c \<Rightarrow> Some c | None \<Rightarrow> colI ! y))"
proof -
  let ?F = "\<lambda>x t. get_col x (board t) = get_col x (board s)"
  let ?P = "\<lambda>x t. x < w \<longrightarrow> (\<exists>colI. poss_intersection (get_numsposs (hl ! x) (int h)) = Inr colI \<and>
            (\<forall>y<h. board t ! y ! x = (case board s ! y ! x of Some c \<Rightarrow> Some c | None \<Rightarrow> colI ! y)))"
  from inv have ls: "length (board s) = h" by (simp add: seed_inv_def shaped_iff)
  have step: "seed_inv h w hl vl t' \<and> ?P i t'"
    if st: "seed_col i t = Inr t'" and ti: "seed_inv h w hl vl t" and F: "?F i t" for i t t'
  proof
    show "seed_inv h w hl vl t'" by (rule seed_col_inv[OF st ti])
    from ti have sh: "shaped t" and hw: "height t = h" "width t = w" "horlist t = hl"
      by (simp_all add: seed_inv_def)
    from seed_col_fields(7)[OF st sh] hw obtain colI merged
      where c: "poss_intersection (get_numsposs (hl ! i) (int h)) = Inr colI"
        and m: "combine_known_nums (get_col i (board t)) colI = Inr merged"
        and lm: "length merged = h" and b: "board t' = set_col i merged (board t)"
      by auto
    from sh hw have lt: "length (board t) = h" and rows: "\<forall>y<h. length (board t ! y) = w"
      by (simp_all add: shaped_iff)
    show "?P i t'"
    proof
      assume iw: "i < w"
      have "board t' ! y ! i = (case board s ! y ! i of Some c \<Rightarrow> Some c | None \<Rightarrow> colI ! y)"
        if y: "y < h" for y
      proof -
        from y lt lm b have "board t' ! y = (board t ! y)[i := merged ! y]"
          by (simp add: nth_set_col)
        with rows y iw have "board t' ! y ! i = merged ! y" by simp
        also from combine_known_nums_Inr(2)[OF m, of y] y lt
        have "merged ! y = (case board t ! y ! i of Some c \<Rightarrow> Some c | None \<Rightarrow> colI ! y)"
          by (simp add: get_col_def)
        also from F y lt ls have "board t ! y ! i = board s ! y ! i"
          by (metis get_col_def nth_map)
        finally show ?thesis .
      qed
      with c show "\<exists>colI. poss_intersection (get_numsposs (hl ! i) (int h)) = Inr colI \<and>
            (\<forall>y<h. board t' ! y ! i = (case board s ! y ! i of Some c \<Rightarrow> Some c | None \<Rightarrow> colI ! y))"
        by blast
    qed
  qed
  have frame: "(?P j t \<longrightarrow> ?P j t') \<and> (?F j t \<longrightarrow> ?F j t')"
    if st: "seed_col i t = Inr t'" and ti: "seed_inv h w hl vl t" and ne: "j \<noteq> i" for i j t t'
  proof -
    from ti have sh: "shaped t" and hw: "height t = h" by (simp_all add: seed_inv_def)
    from seed_col_fields(7)[OF st sh] hw obtain merged
      where lm: "length merged = h" and b: "board t' = set_col i merged (board t)"
      by auto
    from sh hw have lt: "length (board t) = h" by (simp add: shaped_iff)
    have same: "board t' ! y ! j = board t ! y ! j" if "y < h" for y
      using that lt lm b ne by (simp add: nth_set_col)
    have "get_col j (board t') = get_col j (board t)"
      unfolding b by (rule get_col_set_col_other) (simp_all add: lm lt ne)
    with same show ?thesis by auto
  qed
  have "seed_inv h w hl vl s2 \<and> (\<forall>j\<in>{} \<union> set [0..<w]. ?P j s2)"
  proof (rule fold_err_lines[where f = seed_col and I = "seed_inv h w hl vl"
        and F = ?F and P = ?P and D = "{}"])
    fix i t t' assume "seed_col i t = Inr t'" "seed_inv h w hl vl t" "?F i t"
    then show "seed_inv h w hl vl t' \<and> ?P i t'" by (rule step)
  next
    fix i j t t' assume "seed_col i t = Inr t'" "seed_inv h w hl vl t" "j \<noteq> i"
    then show "(?P j t \<longrightarrow> ?P j t') \<and> (?F j t \<longrightarrow> ?F j t')" by (rule frame)
  qed (rule run, rule inv, auto)
  then show "seed_inv h w hl vl s2"
    and "x < w \<Longrightarrow> \<exists>colI. poss_intersection (get_numsposs (hl ! x) (int h)) = Inr colI \<and>
            (\<forall>y<h. board s2 ! y ! x = (case board s ! y ! x of Some c \<Rightarrow> Some c | None \<Rightarrow> colI ! y))"
    by auto
qed


lemma seed_rows_verposs:
  "fold_err seed_row js s = Inr s' \<Longrightarrow>
     length (verposs s') = length (verposs s) + length js \<and> horposs s' = horposs s"
proof (induction js arbitrary: s)
  case Nil
  then show ?case by simp
next
  case (Cons i js)
  then obtain s1 where a: "seed_row i s = Inr s1" and b: "fold_err seed_row js s1 = Inr s'"
    by (auto split: sum.splits)
  from Cons.IH[OF b] seed_row_fields(5,6)[OF a] show ?case by simp
qed

lemma seed_cols_horposs:
  "fold_err seed_col js s = Inr s' \<Longrightarrow> shaped s \<Longrightarrow>
     length (horposs s') = length (horposs s) + length js \<and> verposs s' = verposs s"
proof (induction js arbitrary: s)
  case Nil
  then show ?case by simp
next
  case (Cons i js)
  then obtain s1 where a: "seed_col i s = Inr s1" and b: "fold_err seed_col js s1 = Inr s'"
    by (auto split: sum.splits)
  from Cons.IH[OF b seed_col_shaped[OF a Cons.prems(2)]] seed_col_fields(5,6)[OF a Cons.prems(2)]
  show ?case by simp
qed

lemma initial_possibilities_seeded:
  assumes run: "initial_possibilities (construct hl vl) = Inr s'"
  shows "seed_inv (length vl) (length hl) hl vl s'"
    and "length (verposs s') = length vl" and "length (horposs s') = length hl"
    and "y < length vl \<Longrightarrow> x < length hl \<Longrightarrow>
          \<exists>rowI line colI.
            poss_intersection (get_numsposs (vl ! y) (int (length hl))) = Inr rowI \<and>
            broadcast (length hl) rowI = Inr line \<and>
            poss_intersection (get_numsposs (hl ! x) (int (length vl))) = Inr colI \<and>
            board s' ! y ! x = (case line ! x of Some c \<Rightarrow> Some c | None \<Rightarrow> colI ! y)"
proof -
  let ?h = "length vl" and ?w = "length hl"
  let ?s0 = "(construct hl vl)\<lparr>verposs := []\<rparr>"
  from run obtain s1 where r: "fold_err seed_row [0..<?h] ?s0 = Inr s1"
    and c0: "fold_err seed_col [0..<length (horlist s1)] (s1\<lparr>horposs := []\<rparr>) = Inr s'"
    by (auto simp: initial_possibilities_def construct_def split: sum.splits)
  have i0: "seed_inv ?h ?w hl vl ?s0"
    using shaped_construct[of hl vl] by (simp add: seed_inv_def shaped_def construct_def)
  note rs = rows_seeded[OF r i0]
  from rs(1) have i1: "seed_inv ?h ?w hl vl (s1\<lparr>horposs := []\<rparr>)"
    by (auto simp: seed_inv_def shaped_def)
  from rs(1) c0 have c: "fold_err seed_col [0..<?w] (s1\<lparr>horposs := []\<rparr>) = Inr s'"
    by (simp add: seed_inv_def)
  note cs = cols_seeded[OF c i1]
  show "seed_inv ?h ?w hl vl s'" by (rule cs(1))
  from i1 have sh1: "shaped (s1\<lparr>horposs := []\<rparr>)" by (simp add: seed_inv_def)
  from seed_rows_verposs[OF r] seed_cols_horposs[OF c sh1]
  show "length (verposs s') = ?h" and "length (horposs s') = ?w" by simp_all
  assume y: "y < ?h" and x: "x < ?w"
  from rs(2)[OF y] obtain rowI line
    where a: "poss_intersection (get_numsposs (vl ! y) (int ?w)) = Inr rowI"
      "broadcast ?w rowI = Inr line" "board s1 ! y = line" by blast
  from cs(2)[OF x] y obtain colI
    where b: "poss_intersection (get_numsposs (hl ! x) (int ?h)) = Inr colI"
      "board s' ! y ! x = (case board s1 ! y ! x of Some c \<Rightarrow> Some c | None \<Rightarrow> colI ! y)"
    by auto
  from a b show "\<exists>rowI line colI.
            poss_intersection (get_numsposs (vl ! y) (int ?w)) = Inr rowI \<and>
            broadcast ?w rowI = Inr line \<and>
            poss_intersection (get_numsposs (hl ! x) (int ?h)) = Inr colI \<and>
            board s' ! y ! x = (case line ! x of Some c \<Rightarrow> Some c | None \<Rightarrow> colI ! y)"
    by auto
qed

text \<open>
  Seeding returns whenever every line has an intersection that can be assigned: the
  cell values play no part in whether a step returns.
\<close>

lemma seed_row_total:
  assumes inv: "seed_inv h w hl vl s"
    and ri: "poss_intersection (get_numsposs (vl ! i) (int w)) = Inr rowI"
    and len: "length rowI = w \<or> length rowI = 1"
  shows "\<exists>s'. seed_row i s = Inr s' \<and> seed_inv h w hl vl s'"
proof -
  from len have "\<exists>line. broadcast w rowI = Inr line" by (auto simp: broadcast_def)
  then obtain line where "broadcast w rowI = Inr line" by blast
  with inv ri obtain s' where s': "seed_row i s = Inr s'"
    by (auto simp: seed_row_def seed_inv_def Let_def)
  with seed_row_inv[OF s' inv] show ?thesis by blast
qed

lemma seed_col_total:
  assumes inv: "seed_inv h w hl vl s"
    and ci: "poss_intersection (get_numsposs (hl ! i) (int h)) = Inr colI"
    and len: "h \<le> length colI"
  shows "\<exists>s'. seed_col i s = Inr s' \<and> seed_inv h w hl vl s'"
proof -
  from inv have lc: "length (get_col i (board s)) = h"
    by (simp add: seed_inv_def shaped_iff get_col_def)
  with len have le: "length (get_col i (board s)) \<le> length colI" by simp
  from combine_known_nums_total[OF le] obtain merged
    where m: "combine_known_nums (get_col i (board s)) colI = Inr merged" by blast
  from combine_known_nums_Inr(1)[OF m] lc have "broadcast h merged = Inr merged"
    by (simp add: broadcast_same)
  with inv ci m obtain s' where s': "seed_col i s = Inr s'"
    by (auto simp: seed_col_def seed_inv_def Let_def)
  with seed_col_inv[OF s' inv] show ?thesis by blast
qed

lemma initial_possibilities_total:
  assumes rows: "\<forall>y<length vl. \<exists>rowI.
            poss_intersection (get_numsposs (vl ! y) (int (length hl))) = Inr rowI \<and>
            (length rowI = length hl \<or> length rowI = 1)"
    and cols: "\<forall>x<length hl. \<exists>colI.
            poss_intersection (get_numsposs (hl ! x) (int (length vl))) = Inr colI \<and>
            length vl \<le> length colI"
  shows "\<exists>s'. initial_possibilities (construct hl vl) = Inr s'"
proof -
  let ?h = "length vl" and ?w = "length hl"
  let ?s0 = "(construct hl vl)\<lparr>verposs := []\<rparr>"
  have i0: "seed_inv ?h ?w hl vl ?s0"
    using shaped_construct[of hl vl] by (simp add: seed_inv_def shaped_def construct_def)
  have "\<exists>s1. fold_err seed_row [0..<?h] ?s0 = Inr s1 \<and> seed_inv ?h ?w hl vl s1"
  proof (rule fold_err_total[where I = "seed_inv ?h ?w hl vl", OF _ i0])
    fix i s assume "i \<in> set [0..<?h]" and inv: "seed_inv ?h ?w hl vl s"
    with rows obtain rowI
      where "poss_intersection (get_numsposs (vl ! i) (int ?w)) = Inr rowI"
        "length rowI = ?w \<or> length rowI = 1" by auto
    from seed_row_total[OF inv this] show "\<exists>s'. seed_row i s = Inr s' \<and> seed_inv ?h ?w hl vl s'" .
  qed
  then obtain s1 where r: "fold_err seed_row [0..<?h] ?s0 = Inr s1"
    and i1: "seed_inv ?h ?w hl vl s1" by blast
  from i1 have i1': "seed_inv ?h ?w hl vl (s1\<lparr>horposs := []\<rparr>)"
    by (auto simp: seed_inv_def shaped_def)
  have "\<exists>s2. fold_err seed_col [0..<?w] (s1\<lparr>horposs := []\<rparr>) = Inr s2 \<and> seed_inv ?h ?w hl vl s2"
  proof (rule fold_err_total[where I = "seed_inv ?h ?w hl vl", OF _ i1'])
    fix i s assume "i \<in> set [0..<?w]" and inv: "seed_inv ?h ?w hl vl s"
    with cols obtain colI
      where "poss_intersection (get_numsposs (hl ! i) (int ?h)) = Inr colI"
        "?h \<le> length colI" by auto
    from seed_col_total[OF inv this] show "\<exists>s'. seed_col i s = Inr s' \<and> seed_inv ?h ?w hl vl s'" .
  qed
  then obtain s2 where c: "fold_err seed_col [0..<?w] (s1\<lparr>horposs := []\<rparr>) = Inr s2" by blast
  from i1 have "horlist s1 = hl" by (simp add: seed_inv_def)
  with r c have "initial_possibilities (construct hl vl) = Inr s2"
    by (simp add: initial_possibilities_def construct_def)
  then show ?thesis by blast
qed

text \<open>
  C10: after the seeding of a constructed board, the cell at row \<open>y\<close>, column \<open>x\<close> is the
  value the row pass wrote there (row \<open>y\<close>'s intersection, as assigned to the row)
  whenever that value is known, and column \<open>x\<close>'s intersection at \<open>y\<close> only where the
  row value is \<^verbatim>\<open>None\<close>. A disagreement is never detected: seeding returns normally
  whenever every row has an intersection of the row's length (or of length 1, which the
  assignment broadcasts) and every column an intersection at least as long as the column,
  whatever values the intersections hold; and the merge returns the cell-wise row-first
  choice whenever the column intersection covers the column.
\<close>

theorem seeding_row_precedence:
  "(initial_possibilities (construct horl verl) = Inr s' \<and> y < length verl \<and> x < length horl \<longrightarrow>
      (\<exists>rowI line colI.
          poss_intersection (get_numsposs (verl ! y) (int (length horl))) = Inr rowI \<and>
          broadcast (length horl) rowI = Inr line \<and>
          poss_intersection (get_numsposs (horl ! x) (int (length verl))) = Inr colI \<and>
          board s' ! y ! x = (case line ! x of Some c \<Rightarrow> Some c | None \<Rightarrow> colI ! y))) \<and>
   ((\<forall>y<length verl. \<exists>rowI.
        poss_intersection (get_numsposs (verl ! y) (int (length horl))) = Inr rowI \<and>
        (length rowI = length horl \<or> length rowI = 1)) \<and>
    (\<forall>x<length horl. \<exists>colI.
        poss_intersection (get_numsposs (horl ! x) (int (length verl))) = Inr colI \<and>
        length verl \<le> length colI) \<longrightarrow>
      (\<exists>t. initial_possibilities (construct horl verl) = Inr t)) \<and>
   (length numsA \<le> length numsB \<longrightarrow>
      combine_known_nums numsA numsB =
        Inr (map (\<lambda>ab. case fst ab of Some c \<Rightarrow> Some c | None \<Rightarrow> snd ab) (zip numsA numsB)))"
proof (intro conjI impI)
  assume "initial_possibilities (construct horl verl) = Inr s' \<and> y < length verl \<and> x < length horl"
  then show "\<exists>rowI line colI.
          poss_intersection (get_numsposs (verl ! y) (int (length horl))) = Inr rowI \<and>
          broadcast (length horl) rowI = Inr line \<and>
          poss_intersection (get_numsposs (horl ! x) (int (length verl))) = Inr colI \<and>
          board s' ! y ! x = (case line ! x of Some c \<Rightarrow> Some c | None \<Rightarrow> colI ! y)"
    using initial_possibilities_seeded(4)[of horl verl s' y x] by blast
next
  assume "(\<forall>y<length verl. \<exists>rowI.
        poss_intersection (get_numsposs (verl ! y) (int (length horl))) = Inr rowI \<and>
        (length rowI = length horl \<or> length rowI = 1)) \<and>
    (\<forall>x<length horl. \<exists>colI.
        poss_intersection (get_numsposs (horl ! x) (int (length verl))) = Inr colI \<and>
        length verl \<le> length colI)"
  then show "\<exists>t. initial_possibilities (construct horl verl) = Inr t"
    using initial_possibilities_total[of verl horl] by blast
next
  assume "length numsA \<le> length numsB"
  then show "combine_known_nums numsA numsB =
        Inr (map (\<lambda>ab. case fst ab of Some c \<Rightarrow> Some c | None \<Rightarrow> snd ab) (zip numsA numsB))"
    by (rule combine_known_nums_total)
qed

text \<open>
  Witness for C10: rows hinted \<open>2\<close> and \<open>1\<close>, columns hinted \<open>0\<close> and \<open>1\<close>. Row 0 is known
  filled by its row, column 0 known empty by its column; seeding returns, the seeded
  cell (0, 0) is filled, cell (1, 0) takes the column's value, and nothing is raised.
\<close>

theorem seeding_row_precedence_witness:
  "initial_possibilities (construct [[0], [1]] [[2], [1]]) =
     Inr \<lparr>verlist = [[2], [1]], horlist = [[0], [1]], height = 2, width = 2,
          board = [[Some CHR ''1'', Some CHR ''1''], [Some CHR ''0'', None]],
          verposs = [[''11''], [''10'', ''01'']],
          horposs = [[''00''], [''10'', ''01'']]\<rparr> \<and>
   poss_intersection (get_numsposs [2] 2) = Inr [Some CHR ''1'', Some CHR ''1''] \<and>
   poss_intersection (get_numsposs [1] 2) = Inr [None, None] \<and>
   poss_intersection (get_numsposs [0] 2) = Inr [Some CHR ''0'', Some CHR ''0''] \<and>
   (\<exists>t. initial_possibilities (construct [[0], [1]] [[2], [1]]) = Inr t) \<and>
   (\<exists>rowI line colI.
       poss_intersection (get_numsposs ([[2], [1]] ! 0) (int (length [[0], [1 :: int]]))) = Inr rowI \<and>
       broadcast (length [[0], [1 :: int]]) rowI = Inr line \<and>
       poss_intersection (get_numsposs ([[0], [1]] ! 0) (int (length [[2], [1 :: int]]))) = Inr colI \<and>
       board \<lparr>verlist = [[2], [1]], horlist = [[0], [1]], height = 2, width = 2,
          board = [[Some CHR ''1'', Some CHR ''1''], [Some CHR ''0'', None]],
          verposs = [[''11''], [''10'', ''01'']],
          horposs = [[''00''], [''10'', ''01'']]\<rparr> ! 0 ! 0
         = (case line ! 0 of Some c \<Rightarrow> Some c | None \<Rightarrow> colI ! 0)) \<and>
   combine_known_nums [Some CHR ''1'', None] [Some CHR ''0'', Some CHR ''0'']
     = Inr [Some CHR ''1'', Some CHR ''0'']"
  (is "?run = Inr ?S \<and> ?r0 \<and> ?r1 \<and> ?c0 \<and> ?tot \<and> ?cell \<and> ?m")
proof -
  have h: "?run = Inr ?S" by code_simp
  have r0: ?r0 and r1: ?r1 and c0: ?c0 by code_simp+
  have rows: "\<forall>y<length [[2], [1 :: int]]. \<exists>rowI.
        poss_intersection (get_numsposs ([[2], [1]] ! y) (int (length [[0], [1 :: int]]))) = Inr rowI \<and>
        (length rowI = length [[0], [1 :: int]] \<or> length rowI = 1)"
  proof (intro allI impI)
    fix y assume "y < length [[2], [1 :: int]]"
    then have "y = 0 \<or> y = 1" by auto
    with r0 r1 show "\<exists>rowI.
        poss_intersection (get_numsposs ([[2], [1]] ! y) (int (length [[0], [1 :: int]]))) = Inr rowI \<and>
        (length rowI = length [[0], [1 :: int]] \<or> length rowI = 1)" by auto
  qed
  have cols: "\<forall>x<length [[0], [1 :: int]]. \<exists>colI.
        poss_intersection (get_numsposs ([[0], [1]] ! x) (int (length [[2], [1 :: int]]))) = Inr colI \<and>
        length [[2], [1 :: int]] \<le> length colI"
  proof (intro allI impI)
    fix x assume "x < length [[0], [1 :: int]]"
    then have "x = 0 \<or> x = 1" by auto
    with c0 r1 show "\<exists>colI.
        poss_intersection (get_numsposs ([[0], [1]] ! x) (int (length [[2], [1 :: int]]))) = Inr colI \<and>
        length [[2], [1 :: int]] \<le> length colI" by auto
  qed
  note inst = seeding_row_precedence[of "[[0], [1]]" "[[2], [1]]" ?S 0 0
      "[Some CHR ''1'', None]" "[Some CHR ''0'', Some CHR ''0'']"]
  have y: "0 < length [[2], [1 :: int]]" and x: "0 < length [[0], [1 :: int]]" by simp_all
  from inst h y x have cell: ?cell by blast
  from inst rows cols have tot: ?tot by blast
  from inst have "combine_known_nums [Some CHR ''1'', None] [Some CHR ''0'', Some CHR ''0'']
     = Inr (map (\<lambda>ab. case fst ab of Some c \<Rightarrow> Some c | None \<Rightarrow> snd ab)
              (zip [Some CHR ''1'', None] [Some CHR ''0'', Some CHR ''0'']))"
    by simp
  then have m: ?m by simp
  from h r0 r1 c0 tot cell m show ?thesis by blast
qed

section \<open>Passes keep the board's shape; the loop is bounded by the cell count\<close>

lemma ruleout_line_length:
  "ruleout_line n nums possible = Inr (possible', Some line) \<Longrightarrow> length line = n"
  by (auto simp: ruleout_line_def split: if_splits sum.splits dest: broadcast_length)

lemma ruleout_row_fields:
  assumes "ruleout_row y s = Inr s'"
  shows "height s' = height s" "width s' = width s" "verlist s' = verlist s"
    "horlist s' = horlist s" "horposs s' = horposs s"
    "\<exists>possible w. ruleout_line (width s) (board s ! y) (verposs s ! y) = Inr (possible, w) \<and>
        verposs s' = (verposs s)[y := possible] \<and>
        board s' = (case w of None \<Rightarrow> board s | Some line \<Rightarrow> set_row y line (board s))"
  using assms by (auto simp: ruleout_row_def split: sum.splits)

lemma ruleout_col_fields:
  assumes "ruleout_col x s = Inr s'"
  shows "height s' = height s" "width s' = width s" "verlist s' = verlist s"
    "horlist s' = horlist s" "verposs s' = verposs s"
    "\<exists>possible w. ruleout_line (height s) (get_col x (board s)) (horposs s ! x) = Inr (possible, w) \<and>
        horposs s' = (horposs s)[x := possible] \<and>
        board s' = (case w of None \<Rightarrow> board s | Some line \<Rightarrow> set_col x line (board s))"
  using assms by (auto simp: ruleout_col_def split: sum.splits)

lemma shaped_same_board:
  "shaped s \<Longrightarrow> height s' = height s \<Longrightarrow> width s' = width s \<Longrightarrow> board s' = board s \<Longrightarrow> shaped s'"
  by (simp add: shaped_def)

lemma ruleout_row_inv: "ruleout_row y s = Inr s' \<Longrightarrow> pass_inv h w s \<Longrightarrow> pass_inv h w s'"
proof -
  assume r: "ruleout_row y s = Inr s'" and i: "pass_inv h w s"
  from ruleout_row_fields(6)[OF r] obtain possible wr
    where l: "ruleout_line (width s) (board s ! y) (verposs s ! y) = Inr (possible, wr)"
      and v: "verposs s' = (verposs s)[y := possible]"
      and b: "board s' = (case wr of None \<Rightarrow> board s | Some line \<Rightarrow> set_row y line (board s))"
    by blast
  from i have sh: "shaped s" by (simp add: pass_inv_def)
  have "shaped s'"
  proof (cases wr)
    case None
    with b sh ruleout_row_fields(1,2)[OF r] show ?thesis by (auto intro: shaped_same_board)
  next
    case (Some line)
    with l have "length line = width s" by (auto dest: ruleout_line_length)
    with Some b sh ruleout_row_fields(1,2)[OF r] show ?thesis
      by (auto simp: set_row_def intro: shaped_row_update)
  qed
  with i v ruleout_row_fields(1,2,5)[OF r] show ?thesis by (simp add: pass_inv_def)
qed

lemma ruleout_col_inv: "ruleout_col x s = Inr s' \<Longrightarrow> pass_inv h w s \<Longrightarrow> pass_inv h w s'"
proof -
  assume r: "ruleout_col x s = Inr s'" and i: "pass_inv h w s"
  from ruleout_col_fields(6)[OF r] obtain possible wr
    where l: "ruleout_line (height s) (get_col x (board s)) (horposs s ! x) = Inr (possible, wr)"
      and v: "horposs s' = (horposs s)[x := possible]"
      and b: "board s' = (case wr of None \<Rightarrow> board s | Some line \<Rightarrow> set_col x line (board s))"
    by blast
  from i have sh: "shaped s" by (simp add: pass_inv_def)
  have "shaped s'"
  proof (cases wr)
    case None
    with b sh ruleout_col_fields(1,2)[OF r] show ?thesis by (auto intro: shaped_same_board)
  next
    case (Some line)
    with l have "length line = height s" by (auto dest: ruleout_line_length)
    with Some b sh ruleout_col_fields(1,2)[OF r] show ?thesis
      by (auto intro: shaped_col_update)
  qed
  with i v ruleout_col_fields(1,2,5)[OF r] show ?thesis by (simp add: pass_inv_def)
qed

lemma ruleout_rows_inv: "ruleout_rows s = Inr s' \<Longrightarrow> pass_inv h w s \<Longrightarrow> pass_inv h w s'"
  unfolding ruleout_rows_def by (rule fold_err_inv[where I = "pass_inv h w", OF ruleout_row_inv])

lemma ruleout_cols_inv: "ruleout_cols s = Inr s' \<Longrightarrow> pass_inv h w s \<Longrightarrow> pass_inv h w s'"
  unfolding ruleout_cols_def by (rule fold_err_inv[where I = "pass_inv h w", OF ruleout_col_inv])

lemma initial_possibilities_pass_inv:
  "initial_possibilities (construct hl vl) = Inr s \<Longrightarrow> pass_inv (length vl) (length hl) s"
  using initial_possibilities_seeded(1,2,3)[of hl vl s] by (simp add: pass_inv_def seed_inv_def)

lemma count_list_le_length: "count_list xs x \<le> length xs"
  by (induction xs) auto

lemma sum_list_bounded:
  "(\<And>x. x \<in> set xs \<Longrightarrow> f x \<le> (k::nat)) \<Longrightarrow> sum_list (map f xs) \<le> length xs * k"
  by (induction xs) (auto simp: add_mono)

lemma remaining_le_cells: "shaped s \<Longrightarrow> remaining_squares s \<le> height s * width s"
proof -
  assume sh: "shaped s"
  have "sum_list (map (\<lambda>row. count_list row None) (board s)) \<le> length (board s) * width s"
  proof (rule sum_list_bounded)
    fix row assume "row \<in> set (board s)"
    with sh have "length row = width s" by (simp add: shaped_def list_all_iff)
    with count_list_le_length[of row None] show "count_list row None \<le> width s" by simp
  qed
  with sh show ?thesis by (simp add: remaining_squares_def shaped_def)
qed

lemma count_list_replicate: "count_list (replicate n x) x = n"
  by (induction n) auto

lemma remaining_construct:
  "remaining_squares (construct hl vl) = length vl * length hl"
  by (simp add: remaining_squares_def construct_def map_replicate_const sum_list_replicate
      count_list_replicate)

lemma propagate_within_enough:
  "remaining_squares s \<le> n \<Longrightarrow> propagate_within n s = Some (propagate s)"
proof (induction n arbitrary: s)
  case 0
  then show ?case by (simp add: propagate_within.simps[of 0 s] propagate.simps[of s])
next
  case (Suc n)
  show ?case
  proof (cases "remaining_squares s = 0")
    case True
    then show ?thesis by (simp add: propagate_within.simps[of "Suc n" s] propagate.simps[of s])
  next
    case nz: False
    show ?thesis
    proof (cases "ruleout_rows s")
      case (Inl e)
      with nz show ?thesis by (simp add: propagate_within.simps[of "Suc n" s] propagate.simps[of s])
    next
      case (Inr s1)
      show ?thesis
      proof (cases "ruleout_cols s1")
        case (Inl e)
        with nz Inr show ?thesis
          by (simp add: propagate_within.simps[of "Suc n" s] propagate.simps[of s])
      next
        case c: (Inr s2)
        show ?thesis
        proof (cases "remaining_squares s = remaining_squares s2")
          case True
          with nz Inr c show ?thesis
            by (simp add: propagate_within.simps[of "Suc n" s] propagate.simps[of s])
        next
          case False
          with ruleout_rows_remaining[OF Inr] ruleout_cols_remaining[OF c] Suc.prems
          have "remaining_squares s2 \<le> n" by simp
          from Suc.IH[OF this] nz Inr c False show ?thesis
            by (simp add: propagate_within.simps[of "Suc n" s] propagate.simps[of s])
        qed
      qed
    qed
  qed
qed

text \<open>
  C9: on a constructed board, seeding leaves no more unknown cells than the fresh board
  has; a row pass and a column pass never increase the count of unknown cells; the
  propagation loop finishes within (height times width) row+column cycles; and it stops
  exactly when the count is zero (returning the board) or a full cycle has left the count
  unchanged (returning \<^verbatim>\<open>None\<close>), going on with the next cycle otherwise.
\<close>

theorem unknown_count_bounds_the_loop:
  assumes "initial_possibilities (construct horl verl) = Inr s1"
  shows "remaining_squares s1 \<le> remaining_squares (construct horl verl) \<and>
         (ruleout_rows t = Inr t' \<longrightarrow> remaining_squares t' \<le> remaining_squares t) \<and>
         (ruleout_cols t = Inr t' \<longrightarrow> remaining_squares t' \<le> remaining_squares t) \<and>
         propagate_within (length verl * length horl) s1 = Some (propagate s1) \<and>
         (remaining_squares t = 0 \<longrightarrow> propagate t = Inr (t, RetSelf)) \<and>
         (remaining_squares t \<noteq> 0 \<and> ruleout_rows t = Inr t1 \<and> ruleout_cols t1 = Inr t2 \<longrightarrow>
            propagate t = (if remaining_squares t = remaining_squares t2 then Inr (t2, RetNone)
                           else propagate t2))"
proof -
  from initial_possibilities_pass_inv[OF assms]
  have sh: "shaped s1" and hw: "height s1 = length verl" "width s1 = length horl"
    by (simp_all add: pass_inv_def)
  from remaining_le_cells[OF sh] hw
  have le: "remaining_squares s1 \<le> length verl * length horl" by simp
  then have "remaining_squares s1 \<le> remaining_squares (construct horl verl)"
    by (simp add: remaining_construct)
  moreover have "propagate_within (length verl * length horl) s1 = Some (propagate s1)"
    by (rule propagate_within_enough[OF le])
  moreover have "remaining_squares t = 0 \<longrightarrow> propagate t = Inr (t, RetSelf)"
    by (simp add: propagate.simps[of t])
  moreover have "remaining_squares t \<noteq> 0 \<and> ruleout_rows t = Inr t1 \<and> ruleout_cols t1 = Inr t2 \<longrightarrow>
            propagate t = (if remaining_squares t = remaining_squares t2 then Inr (t2, RetNone)
                           else propagate t2)"
    by (simp add: propagate.simps[of t])
  ultimately show ?thesis
    using ruleout_rows_remaining[of t t'] ruleout_cols_remaining[of t t'] by blast
qed

text \<open>
  Witness for C9: rows hinted \<open>2\<close> and \<open>1\<close>, columns hinted \<open>0\<close> and \<open>1\<close>. Seeding leaves
  one unknown cell, the row pass fills it, and the loop ends after one cycle, within the
  bound of four.
\<close>

theorem unknown_count_bounds_the_loop_witness:
  "initial_possibilities (construct [[0], [1]] [[2], [1]]) =
     Inr \<lparr>verlist = [[2], [1]], horlist = [[0], [1]], height = 2, width = 2,
          board = [[Some CHR ''1'', Some CHR ''1''], [Some CHR ''0'', None]],
          verposs = [[''11''], [''10'', ''01'']],
          horposs = [[''00''], [''10'', ''01'']]\<rparr> \<and>
   ruleout_rows \<lparr>verlist = [[2], [1]], horlist = [[0], [1]], height = 2, width = 2,
          board = [[Some CHR ''1'', Some CHR ''1''], [Some CHR ''0'', None]],
          verposs = [[''11''], [''10'', ''01'']],
          horposs = [[''00''], [''10'', ''01'']]\<rparr> =
     Inr \<lparr>verlist = [[2], [1]], horlist = [[0], [1]], height = 2, width = 2,
          board = [[Some CHR ''1'', Some CHR ''1''], [Some CHR ''0'', Some CHR ''1'']],
          verposs = [[''11''], [''01'']],
          horposs = [[''00''], [''10'', ''01'']]\<rparr> \<and>
   ruleout_cols \<lparr>verlist = [[2], [1]], horlist = [[0], [1]], height = 2, width = 2,
          board = [[Some CHR ''1'', Some CHR ''1''], [Some CHR ''0'', Some CHR ''1'']],
          verposs = [[''11''], [''01'']],
          horposs = [[''00''], [''10'', ''01'']]\<rparr> =
     Inr \<lparr>verlist = [[2], [1]], horlist = [[0], [1]], height = 2, width = 2,
          board = [[Some CHR ''0'', Some CHR ''1''], [Some CHR ''0'', Some CHR ''1'']],
          verposs = [[''11''], [''01'']],
          horposs = [[''00''], []]\<rparr> \<and>
   remaining_squares \<lparr>verlist = [[2], [1]], horlist = [[0], [1]], height = 2, width = 2,
          board = [[Some CHR ''1'', Some CHR ''1''], [Some CHR ''0'', Some CHR ''1'']],
          verposs = [[''11''], [''01'']],
          horposs = [[''00''], [''10'', ''01'']]\<rparr>
     \<le> remaining_squares \<lparr>verlist = [[2], [1]], horlist = [[0], [1]], height = 2, width = 2,
          board = [[Some CHR ''1'', Some CHR ''1''], [Some CHR ''0'', None]],
          verposs = [[''11''], [''10'', ''01'']],
          horposs = [[''00''], [''10'', ''01'']]\<rparr> \<and>
   remaining_squares \<lparr>verlist = [[2], [1]], horlist = [[0], [1]], height = 2, width = 2,
          board = [[Some CHR ''0'', Some CHR ''1''], [Some CHR ''0'', Some CHR ''1'']],
          verposs = [[''11''], [''01'']],
          horposs = [[''00''], []]\<rparr>
     \<le> remaining_squares \<lparr>verlist = [[2], [1]], horlist = [[0], [1]], height = 2, width = 2,
          board = [[Some CHR ''1'', Some CHR ''1''], [Some CHR ''0'', Some CHR ''1'']],
          verposs = [[''11''], [''01'']],
          horposs = [[''00''], [''10'', ''01'']]\<rparr> \<and>
   propagate_within (length [[2], [1 :: int]] * length [[0], [1 :: int]]) \<lparr>verlist = [[2], [1]], horlist = [[0], [1]], height = 2, width = 2,
          board = [[Some CHR ''1'', Some CHR ''1''], [Some CHR ''0'', None]],
          verposs = [[''11''], [''10'', ''01'']],
          horposs = [[''00''], [''10'', ''01'']]\<rparr> =
     Some (Inr (\<lparr>verlist = [[2], [1]], horlist = [[0], [1]], height = 2, width = 2,
          board = [[Some CHR ''0'', Some CHR ''1''], [Some CHR ''0'', Some CHR ''1'']],
          verposs = [[''11''], [''01'']],
          horposs = [[''00''], []]\<rparr>, RetSelf))"
  (is "?init = Inr ?S1 \<and> ?rows = Inr ?T1 \<and> ?cols = Inr ?T2 \<and> ?le1 \<and> ?le2 \<and> ?bound")
proof -
  have h: "?init = Inr ?S1" by code_simp
  have r: "?rows = Inr ?T1" by code_simp
  have c: "?cols = Inr ?T2" by code_simp
  have p: "propagate ?S1 = Inr (?T2, RetSelf)" by code_simp
  note a = unknown_count_bounds_the_loop[OF h, of ?S1 ?T1]
    and b = unknown_count_bounds_the_loop[OF h, of ?T1 ?T2]
  from a r have ?le1 by blast
  moreover from b c have ?le2 by blast
  moreover from a p have ?bound by simp
  ultimately show ?thesis using h r c by blast
qed

section \<open>Claims about the pruner\<close>

lemma prune_spec:
  "prune i nums possible = Inr possible' \<Longrightarrow>
     set possible' \<subseteq> set possible \<and>
     (\<forall>p\<in>set possible'. \<forall>k<length nums. \<forall>c. nums ! k = Some c \<longrightarrow>
          i + k < length p \<and> p ! (i + k) = c)"
proof (induction i nums possible rule: prune.induct)
  case (1 i possible)
  then show ?case by simp
next
  case (2 i nums possible)
  from "2.prems" have "prune (Suc i) nums possible = Inr possible'" by simp
  from "2.IH"[OF this] show ?case
    by (auto simp: nth_Cons split: nat.splits)
next
  case (3 i c nums possible)
  from "3.prems" have short: "\<not> list_ex (\<lambda>poss. length poss \<le> i) possible"
    and rec: "prune (Suc i) nums (filter (\<lambda>poss. poss ! i = c) possible) = Inr possible'"
    by (auto split: if_splits)
  from "3.IH"[OF short rec]
  have sub: "set possible' \<subseteq> set (filter (\<lambda>poss. poss ! i = c) possible)"
    and ag: "\<forall>p\<in>set possible'. \<forall>k<length nums. \<forall>d. nums ! k = Some d \<longrightarrow>
          Suc i + k < length p \<and> p ! (Suc i + k) = d"
    by simp_all
  from sub have sub': "set possible' \<subseteq> set possible" by auto
  have "i + k < length p \<and> p ! (i + k) = d"
    if p: "p \<in> set possible'" and k: "k < length (Some c # nums)" and d: "(Some c # nums) ! k = Some d"
    for p k d
  proof (cases k)
    case 0
    from p sub have "p \<in> set possible" "p ! i = c" by auto
    with short have "i < length p" by (auto simp: list_ex_iff not_le)
    with 0 d \<open>p ! i = c\<close> show ?thesis by simp
  next
    case (Suc j)
    with k d have "j < length nums" "nums ! j = Some d" by simp_all
    with ag p have "Suc i + j < length p \<and> p ! (Suc i + j) = d" by blast
    with Suc show ?thesis by simp
  qed
  with sub' show ?case by blast
qed

lemma broadcast_pattern_agrees:
  assumes "broadcast n (map Some p) = Inr line" and "k < n" and "line ! k = Some c" and "k < length p"
  shows "p ! k = c"
proof (cases "length p = n")
  case True
  with assms have "line = map Some p" by (simp add: broadcast_def)
  with assms show ?thesis by simp
next
  case False
  with assms(1) have l1: "length p = 1" and line: "line = replicate n (hd (map Some p))"
    by (auto simp: broadcast_def split: if_splits)
  from l1 obtain a where p: "p = [a]" by (cases p) auto
  with assms line show ?thesis by simp
qed

lemma ruleout_line_spec:
  assumes run: "ruleout_line n nums possible = Inr (possible', wr)" and len: "length nums = n"
  shows "set possible' \<subseteq> set possible"
    and "p \<in> set possible' \<Longrightarrow> k < n \<Longrightarrow>
          (case wr of None \<Rightarrow> nums | Some line \<Rightarrow> line) ! k = Some c \<Longrightarrow> k < length p \<Longrightarrow>
          p ! k = c"
proof -
  have single: "q ! k = c"
    if "length ps = 1" "broadcast n (map Some (hd ps)) = Inr line" "q \<in> set ps" "k < n"
      "line ! k = Some c" "k < length q" for ps line q
  proof -
    from that(1,3) have "hd ps = q" by (cases ps) auto
    with that show ?thesis by (auto intro: broadcast_pattern_agrees)
  qed
  show "set possible' \<subseteq> set possible"
    using run by (auto simp: ruleout_line_def split: if_splits sum.splits dest: prune_spec)
  assume p: "p \<in> set possible'" and k: "k < n"
    and v: "(case wr of None \<Rightarrow> nums | Some line \<Rightarrow> line) ! k = Some c" and kp: "k < length p"
  show "p ! k = c"
  proof (cases "length possible = 1")
    case True
    with run obtain line where "broadcast n (map Some (hd possible)) = Inr line"
      "possible' = possible" "wr = Some line"
      by (auto simp: ruleout_line_def split: sum.splits)
    with single[OF True, of line p] p k v kp show ?thesis by simp
  next
    case False
    with run obtain pr where pr: "prune 0 nums possible = Inr pr"
      by (auto simp: ruleout_line_def split: sum.splits)
    show ?thesis
    proof (cases "length pr = 1")
      case True
      with run False pr obtain line where "broadcast n (map Some (hd pr)) = Inr line"
        "possible' = pr" "wr = Some line"
        by (auto simp: ruleout_line_def split: sum.splits)
      with single[OF True, of line p] p k v kp show ?thesis by simp
    next
      case ns: False
      with run False pr have "possible' = pr" "wr = None"
        by (auto simp: ruleout_line_def split: sum.splits)
      with prune_spec[OF pr] p k v len show ?thesis by auto
    qed
  qed
qed


lemma rows_pruned:
  assumes run: "ruleout_rows s = Inr s'" and inv: "pass_inv h w s"
  shows "horposs s' = horposs s"
    and "y < h \<Longrightarrow> set (verposs s' ! y) \<subseteq> set (verposs s ! y)"
    and "y < h \<Longrightarrow> p \<in> set (verposs s' ! y) \<Longrightarrow> k < w \<Longrightarrow> board s' ! y ! k = Some c \<Longrightarrow>
           k < length p \<Longrightarrow> p ! k = c"
proof -
  let ?I = "\<lambda>t. pass_inv h w t \<and> horposs t = horposs s"
  let ?F = "\<lambda>y t. verposs t ! y = verposs s ! y"
  let ?P = "\<lambda>y t. y < h \<longrightarrow> set (verposs t ! y) \<subseteq> set (verposs s ! y) \<and>
            (\<forall>p\<in>set (verposs t ! y). \<forall>k<w. \<forall>c. board t ! y ! k = Some c \<longrightarrow> k < length p \<longrightarrow> p ! k = c)"
  have step: "?I t' \<and> ?P i t'" if st: "ruleout_row i t = Inr t'" and ti: "?I t" and F: "?F i t"
    for i t t'
  proof
    from ti st show "?I t'" by (auto intro: ruleout_row_inv simp: ruleout_row_fields(5))
    show "?P i t'"
    proof
      assume ih: "i < h"
      from ti have lb: "length (board t) = h" and lr: "length (board t ! i) = w"
        and lv: "length (verposs t) = h" and wt: "width t = w"
        using ih by (simp_all add: pass_inv_def shaped_iff)
      from ruleout_row_fields(6)[OF st] wt obtain possible wr
        where l: "ruleout_line w (board t ! i) (verposs t ! i) = Inr (possible, wr)"
          and v: "verposs t' = (verposs t)[i := possible]"
          and b: "board t' = (case wr of None \<Rightarrow> board t | Some line \<Rightarrow> set_row i line (board t))"
        by auto
      from v lv ih have vi: "verposs t' ! i = possible" by simp
      from b lb ih have bi: "board t' ! i = (case wr of None \<Rightarrow> board t ! i | Some line \<Rightarrow> line)"
        by (simp add: set_row_def split: option.splits)
      note spec = ruleout_line_spec[OF l lr]
      from spec(1) F vi have "set (verposs t' ! i) \<subseteq> set (verposs s ! i)" by simp
      moreover have "\<forall>p\<in>set (verposs t' ! i). \<forall>k<w. \<forall>c. board t' ! i ! k = Some c \<longrightarrow>
           k < length p \<longrightarrow> p ! k = c"
        using spec(2) vi bi by (auto split: option.splits)
      ultimately show "set (verposs t' ! i) \<subseteq> set (verposs s ! i) \<and>
        (\<forall>p\<in>set (verposs t' ! i). \<forall>k<w. \<forall>c. board t' ! i ! k = Some c \<longrightarrow>
           k < length p \<longrightarrow> p ! k = c)" by blast
    qed
  qed
  have frame: "(?P j t \<longrightarrow> ?P j t') \<and> (?F j t \<longrightarrow> ?F j t')"
    if st: "ruleout_row i t = Inr t'" and ti: "?I t" and ne: "j \<noteq> i" for i j t t'
  proof -
    from ruleout_row_fields(6)[OF st] obtain possible wr
      where v: "verposs t' = (verposs t)[i := possible]"
        and b: "board t' = (case wr of None \<Rightarrow> board t | Some line \<Rightarrow> set_row i line (board t))"
      by auto
    from v ne have "verposs t' ! j = verposs t ! j" by simp
    moreover from b ne have "board t' ! j = board t ! j"
      by (simp add: set_row_def split: option.splits)
    ultimately show ?thesis by simp
  qed
  from inv have hs: "height s = h" by (simp add: pass_inv_def)
  have "?I s' \<and> (\<forall>j\<in>{} \<union> set [0..<h]. ?P j s')"
  proof (rule fold_err_lines[where f = ruleout_row and I = ?I and F = ?F and P = ?P and D = "{}"])
    fix i t t' assume "ruleout_row i t = Inr t'" "?I t" "?F i t"
    then show "?I t' \<and> ?P i t'" by (rule step)
  next
    fix i j t t' assume "ruleout_row i t = Inr t'" "?I t" "j \<noteq> i"
    then show "(?P j t \<longrightarrow> ?P j t') \<and> (?F j t \<longrightarrow> ?F j t')" by (rule frame)
  next
    from run hs show "fold_err ruleout_row [0..<h] s = Inr s'" by (simp add: ruleout_rows_def)
  qed (use inv in auto)
  then show "horposs s' = horposs s"
    and "y < h \<Longrightarrow> set (verposs s' ! y) \<subseteq> set (verposs s ! y)"
    and "y < h \<Longrightarrow> p \<in> set (verposs s' ! y) \<Longrightarrow> k < w \<Longrightarrow> board s' ! y ! k = Some c \<Longrightarrow>
           k < length p \<Longrightarrow> p ! k = c"
    by auto
qed

lemma cols_pruned:
  assumes run: "ruleout_cols s = Inr s'" and inv: "pass_inv h w s"
  shows "verposs s' = verposs s"
    and "x < w \<Longrightarrow> set (horposs s' ! x) \<subseteq> set (horposs s ! x)"
    and "x < w \<Longrightarrow> p \<in> set (horposs s' ! x) \<Longrightarrow> k < h \<Longrightarrow> board s' ! k ! x = Some c \<Longrightarrow>
           k < length p \<Longrightarrow> p ! k = c"
proof -
  let ?I = "\<lambda>t. pass_inv h w t \<and> verposs t = verposs s"
  let ?F = "\<lambda>x t. horposs t ! x = horposs s ! x"
  let ?P = "\<lambda>x t. x < w \<longrightarrow> set (horposs t ! x) \<subseteq> set (horposs s ! x) \<and>
            (\<forall>p\<in>set (horposs t ! x). \<forall>k<h. \<forall>c. board t ! k ! x = Some c \<longrightarrow> k < length p \<longrightarrow> p ! k = c)"
  have step: "?I t' \<and> ?P i t'" if st: "ruleout_col i t = Inr t'" and ti: "?I t" and F: "?F i t"
    for i t t'
  proof
    from ti st show "?I t'" by (auto intro: ruleout_col_inv simp: ruleout_col_fields(5))
    show "?P i t'"
    proof
      assume iw: "i < w"
      from ti have lb: "length (board t) = h" and rows: "\<forall>y<h. length (board t ! y) = w"
        and lv: "length (horposs t) = w" and ht: "height t = h"
        by (simp_all add: pass_inv_def shaped_iff)
      from ruleout_col_fields(6)[OF st] ht obtain possible wr
        where l: "ruleout_line h (get_col i (board t)) (horposs t ! i) = Inr (possible, wr)"
          and v: "horposs t' = (horposs t)[i := possible]"
          and b: "board t' = (case wr of None \<Rightarrow> board t | Some line \<Rightarrow> set_col i line (board t))"
        by auto
      from v lv iw have vi: "horposs t' ! i = possible" by simp
      from lb have lc: "length (get_col i (board t)) = h" by (simp add: get_col_def)
      have bi: "board t' ! k ! i = (case wr of None \<Rightarrow> get_col i (board t) | Some line \<Rightarrow> line) ! k"
        if k: "k < h" for k
      proof (cases wr)
        case None
        with b k lb show ?thesis by (simp add: get_col_def)
      next
        case (Some line)
        with l have "length line = h" by (auto dest: ruleout_line_length)
        with Some b k lb rows iw show ?thesis by (simp add: nth_set_col)
      qed
      note spec = ruleout_line_spec[OF l lc]
      from spec(1) F vi have "set (horposs t' ! i) \<subseteq> set (horposs s ! i)" by simp
      moreover have "\<forall>p\<in>set (horposs t' ! i). \<forall>k<h. \<forall>c. board t' ! k ! i = Some c \<longrightarrow>
           k < length p \<longrightarrow> p ! k = c"
        using spec(2) vi bi by auto
      ultimately show "set (horposs t' ! i) \<subseteq> set (horposs s ! i) \<and>
        (\<forall>p\<in>set (horposs t' ! i). \<forall>k<h. \<forall>c. board t' ! k ! i = Some c \<longrightarrow>
           k < length p \<longrightarrow> p ! k = c)" by blast
    qed
  qed
  have frame: "(?P j t \<longrightarrow> ?P j t') \<and> (?F j t \<longrightarrow> ?F j t')"
    if st: "ruleout_col i t = Inr t'" and ti: "?I t" and ne: "j \<noteq> i" for i j t t'
  proof -
    from ti have lb: "length (board t) = h" and ht: "height t = h"
      by (simp_all add: pass_inv_def shaped_iff)
    from ruleout_col_fields(6)[OF st] ht obtain possible wr
      where l: "ruleout_line h (get_col i (board t)) (horposs t ! i) = Inr (possible, wr)"
        and v: "horposs t' = (horposs t)[i := possible]"
        and b: "board t' = (case wr of None \<Rightarrow> board t | Some line \<Rightarrow> set_col i line (board t))"
      by auto
    from v ne have "horposs t' ! j = horposs t ! j" by simp
    moreover have "board t' ! k ! j = board t ! k ! j" if k: "k < h" for k
    proof (cases wr)
      case None
      with b show ?thesis by simp
    next
      case (Some line)
      with l have "length line = h" by (auto dest: ruleout_line_length)
      with Some b k lb ne show ?thesis by (simp add: nth_set_col)
    qed
    ultimately show ?thesis by simp
  qed
  from inv have ws: "width s = w" by (simp add: pass_inv_def)
  have "?I s' \<and> (\<forall>j\<in>{} \<union> set [0..<w]. ?P j s')"
  proof (rule fold_err_lines[where f = ruleout_col and I = ?I and F = ?F and P = ?P and D = "{}"])
    fix i t t' assume "ruleout_col i t = Inr t'" "?I t" "?F i t"
    then show "?I t' \<and> ?P i t'" by (rule step)
  next
    fix i j t t' assume "ruleout_col i t = Inr t'" "?I t" "j \<noteq> i"
    then show "(?P j t \<longrightarrow> ?P j t') \<and> (?F j t \<longrightarrow> ?F j t')" by (rule frame)
  next
    from run ws show "fold_err ruleout_col [0..<w] s = Inr s'" by (simp add: ruleout_cols_def)
  qed (use inv in auto)
  then show "verposs s' = verposs s"
    and "x < w \<Longrightarrow> set (horposs s' ! x) \<subseteq> set (horposs s ! x)"
    and "x < w \<Longrightarrow> p \<in> set (horposs s' ! x) \<Longrightarrow> k < h \<Longrightarrow> board s' ! k ! x = Some c \<Longrightarrow>
           k < length p \<Longrightarrow> p ! k = c"
    by auto
qed


lemma propagate_shrinks:
  "propagate s = Inr (s', r) \<Longrightarrow> pass_inv h w s \<Longrightarrow>
     (\<forall>y<h. set (verposs s' ! y) \<subseteq> set (verposs s ! y)) \<and>
     (\<forall>x<w. set (horposs s' ! x) \<subseteq> set (horposs s ! x))"
proof (induction s rule: propagate.induct)
  case (1 s)
  show ?case
  proof (cases "remaining_squares s = 0")
    case True
    with "1.prems" show ?thesis by (simp add: propagate.simps[of s])
  next
    case nz: False
    with "1.prems" obtain s1 s2 where r: "ruleout_rows s = Inr s1" and c: "ruleout_cols s1 = Inr s2"
      by (auto simp: propagate.simps[of s] split: sum.splits)
    note i1 = ruleout_rows_inv[OF r "1.prems"(2)]
    note i2 = ruleout_cols_inv[OF c i1]
    note rp = rows_pruned(1,2)[OF r "1.prems"(2)]
    note cp = cols_pruned(1,2)[OF c i1]
    have cyc: "(\<forall>y<h. set (verposs s2 ! y) \<subseteq> set (verposs s ! y)) \<and>
               (\<forall>x<w. set (horposs s2 ! x) \<subseteq> set (horposs s ! x))"
      using rp cp by simp
    show ?thesis
    proof (cases "remaining_squares s = remaining_squares s2")
      case True
      with nz r c "1.prems" have "s' = s2" by (simp add: propagate.simps[of s])
      with cyc show ?thesis by simp
    next
      case ne: False
      with nz r c "1.prems" have "propagate s2 = Inr (s', r)" by (simp add: propagate.simps[of s])
      from "1.IH"[OF nz r c ne this i2] cyc show ?thesis by blast
    qed
  qed
qed

text \<open>
  Counterexample to C8 as stated, on a puzzle that has a solution: rows hinted \<open>2\<close> and
  \<open>1\<close>, columns hinted \<open>1\<close> and \<open>2\<close>. After seeding and the first row pass, cell (0, 0) is
  known filled, yet the first column's candidate set still holds the pattern \<open>01\<close>,
  empty at that position: a pass prunes the lines of its own axis only.
\<close>

theorem column_set_disagrees_after_row_pass:
  "initial_possibilities (construct [[1], [2]] [[2], [1]]) =
     Inr \<lparr>verlist = [[2], [1]], horlist = [[1], [2]], height = 2, width = 2,
        board = [[Some CHR ''1'', Some CHR ''1''], [None, Some CHR ''1'']],
        verposs = [[''11''], [''10'', ''01'']],
        horposs = [[''10'', ''01''], [''11'']]\<rparr> \<and>
   ruleout_rows \<lparr>verlist = [[2], [1]], horlist = [[1], [2]], height = 2, width = 2,
        board = [[Some CHR ''1'', Some CHR ''1''], [None, Some CHR ''1'']],
        verposs = [[''11''], [''10'', ''01'']],
        horposs = [[''10'', ''01''], [''11'']]\<rparr> =
     Inr \<lparr>verlist = [[2], [1]], horlist = [[1], [2]], height = 2, width = 2,
        board = [[Some CHR ''1'', Some CHR ''1''], [Some CHR ''0'', Some CHR ''1'']],
        verposs = [[''11''], [''01'']],
        horposs = [[''10'', ''01''], [''11'']]\<rparr> \<and>
   ''01'' \<in> set (horposs \<lparr>verlist = [[2], [1]], horlist = [[1], [2]], height = 2, width = 2,
        board = [[Some CHR ''1'', Some CHR ''1''], [Some CHR ''0'', Some CHR ''1'']],
        verposs = [[''11''], [''01'']],
        horposs = [[''10'', ''01''], [''11'']]\<rparr> ! 0) \<and>
   board \<lparr>verlist = [[2], [1]], horlist = [[1], [2]], height = 2, width = 2,
        board = [[Some CHR ''1'', Some CHR ''1''], [Some CHR ''0'', Some CHR ''1'']],
        verposs = [[''11''], [''01'']],
        horposs = [[''10'', ''01''], [''11'']]\<rparr> ! 0 ! 0 = Some CHR ''1'' \<and>
   ''01'' ! 0 \<noteq> CHR ''1''"
  by code_simp

text \<open>
  C8 (amended): on a board with its shape and one candidate set per line, a row pass
  leaves every column's candidate set untouched, can only remove patterns from a row's
  candidate set, and afterwards every pattern left in a row's set agrees with every known
  cell of that row at each position the pattern has; the same holds for a column pass
  with rows and columns exchanged; and over the whole propagation loop no line's
  candidate set gains a pattern.
\<close>

theorem pruning_shrinks_and_agrees:
  assumes "pass_inv h w s"
  shows "(ruleout_rows s = Inr s' \<longrightarrow>
            horposs s' = horposs s \<and>
            (\<forall>y<h. set (verposs s' ! y) \<subseteq> set (verposs s ! y) \<and>
               (\<forall>p\<in>set (verposs s' ! y). \<forall>k<w. \<forall>c.
                   board s' ! y ! k = Some c \<longrightarrow> k < length p \<longrightarrow> p ! k = c))) \<and>
         (ruleout_cols s = Inr s' \<longrightarrow>
            verposs s' = verposs s \<and>
            (\<forall>x<w. set (horposs s' ! x) \<subseteq> set (horposs s ! x) \<and>
               (\<forall>p\<in>set (horposs s' ! x). \<forall>k<h. \<forall>c.
                   board s' ! k ! x = Some c \<longrightarrow> k < length p \<longrightarrow> p ! k = c))) \<and>
         (propagate s = Inr (s', r) \<longrightarrow>
            (\<forall>y<h. set (verposs s' ! y) \<subseteq> set (verposs s ! y)) \<and>
            (\<forall>x<w. set (horposs s' ! x) \<subseteq> set (horposs s ! x)))"
proof (intro conjI impI)
  assume r: "ruleout_rows s = Inr s'"
  show "horposs s' = horposs s" by (rule rows_pruned(1)[OF r assms])
  show "\<forall>y<h. set (verposs s' ! y) \<subseteq> set (verposs s ! y) \<and>
               (\<forall>p\<in>set (verposs s' ! y). \<forall>k<w. \<forall>c.
                   board s' ! y ! k = Some c \<longrightarrow> k < length p \<longrightarrow> p ! k = c)"
    using rows_pruned(2,3)[OF r assms] by blast
next
  assume c: "ruleout_cols s = Inr s'"
  show "verposs s' = verposs s" by (rule cols_pruned(1)[OF c assms])
  show "\<forall>x<w. set (horposs s' ! x) \<subseteq> set (horposs s ! x) \<and>
               (\<forall>p\<in>set (horposs s' ! x). \<forall>k<h. \<forall>c.
                   board s' ! k ! x = Some c \<longrightarrow> k < length p \<longrightarrow> p ! k = c)"
    using cols_pruned(2,3)[OF c assms] by blast
next
  assume p: "propagate s = Inr (s', r)"
  from propagate_shrinks[OF p assms]
  show "\<forall>y<h. set (verposs s' ! y) \<subseteq> set (verposs s ! y)"
    and "\<forall>x<w. set (horposs s' ! x) \<subseteq> set (horposs s ! x)" by simp_all
qed

text \<open>
  Witness for C8 (amended): the same puzzle, through its row pass, its column pass and
  the whole loop.
\<close>

theorem pruning_shrinks_and_agrees_witness:
  "pass_inv 2 2 \<lparr>verlist = [[2], [1]], horlist = [[1], [2]], height = 2, width = 2,
        board = [[Some CHR ''1'', Some CHR ''1''], [None, Some CHR ''1'']],
        verposs = [[''11''], [''10'', ''01'']],
        horposs = [[''10'', ''01''], [''11'']]\<rparr> \<and>
   ruleout_rows \<lparr>verlist = [[2], [1]], horlist = [[1], [2]], height = 2, width = 2,
        board = [[Some CHR ''1'', Some CHR ''1''], [None, Some CHR ''1'']],
        verposs = [[''11''], [''10'', ''01'']],
        horposs = [[''10'', ''01''], [''11'']]\<rparr> =
     Inr \<lparr>verlist = [[2], [1]], horlist = [[1], [2]], height = 2, width = 2,
        board = [[Some CHR ''1'', Some CHR ''1''], [Some CHR ''0'', Some CHR ''1'']],
        verposs = [[''11''], [''01'']],
        horposs = [[''10'', ''01''], [''11'']]\<rparr> \<and>
   pass_inv 2 2 \<lparr>verlist = [[2], [1]], horlist = [[1], [2]], height = 2, width = 2,
        board = [[Some CHR ''1'', Some CHR ''1''], [Some CHR ''0'', Some CHR ''1'']],
        verposs = [[''11''], [''01'']],
        horposs = [[''10'', ''01''], [''11'']]\<rparr> \<and>
   ruleout_cols \<lparr>verlist = [[2], [1]], horlist = [[1], [2]], height = 2, width = 2,
        board = [[Some CHR ''1'', Some CHR ''1''], [Some CHR ''0'', Some CHR ''1'']],
        verposs = [[''11''], [''01'']],
        horposs = [[''10'', ''01''], [''11'']]\<rparr> =
     Inr \<lparr>verlist = [[2], [1]], horlist = [[1], [2]], height = 2, width = 2,
        board = [[Some CHR ''1'', Some CHR ''1''], [Some CHR ''0'', Some CHR ''1'']],
        verposs = [[''11''], [''01'']],
        horposs = [[''10''], [''11'']]\<rparr> \<and>
   propagate \<lparr>verlist = [[2], [1]], horlist = [[1], [2]], height = 2, width = 2,
        board = [[Some CHR ''1'', Some CHR ''1''], [None, Some CHR ''1'']],
        verposs = [[''11''], [''10'', ''01'']],
        horposs = [[''10'', ''01''], [''11'']]\<rparr> =
     Inr (\<lparr>verlist = [[2], [1]], horlist = [[1], [2]], height = 2, width = 2,
        board = [[Some CHR ''1'', Some CHR ''1''], [Some CHR ''0'', Some CHR ''1'']],
        verposs = [[''11''], [''01'']],
        horposs = [[''10''], [''11'']]\<rparr>, RetSelf) \<and>
   set (verposs \<lparr>verlist = [[2], [1]], horlist = [[1], [2]], height = 2, width = 2,
        board = [[Some CHR ''1'', Some CHR ''1''], [Some CHR ''0'', Some CHR ''1'']],
        verposs = [[''11''], [''01'']],
        horposs = [[''10'', ''01''], [''11'']]\<rparr> ! 1)
     \<subseteq> set (verposs \<lparr>verlist = [[2], [1]], horlist = [[1], [2]], height = 2, width = 2,
        board = [[Some CHR ''1'', Some CHR ''1''], [None, Some CHR ''1'']],
        verposs = [[''11''], [''10'', ''01'']],
        horposs = [[''10'', ''01''], [''11'']]\<rparr> ! 1) \<and>
   set (horposs \<lparr>verlist = [[2], [1]], horlist = [[1], [2]], height = 2, width = 2,
        board = [[Some CHR ''1'', Some CHR ''1''], [Some CHR ''0'', Some CHR ''1'']],
        verposs = [[''11''], [''01'']],
        horposs = [[''10''], [''11'']]\<rparr> ! 0)
     \<subseteq> set (horposs \<lparr>verlist = [[2], [1]], horlist = [[1], [2]], height = 2, width = 2,
        board = [[Some CHR ''1'', Some CHR ''1''], [Some CHR ''0'', Some CHR ''1'']],
        verposs = [[''11''], [''01'']],
        horposs = [[''10'', ''01''], [''11'']]\<rparr> ! 0) \<and>
   ''10'' \<in> set (horposs \<lparr>verlist = [[2], [1]], horlist = [[1], [2]], height = 2, width = 2,
        board = [[Some CHR ''1'', Some CHR ''1''], [Some CHR ''0'', Some CHR ''1'']],
        verposs = [[''11''], [''01'']],
        horposs = [[''10''], [''11'']]\<rparr> ! 0) \<and>
   board \<lparr>verlist = [[2], [1]], horlist = [[1], [2]], height = 2, width = 2,
        board = [[Some CHR ''1'', Some CHR ''1''], [Some CHR ''0'', Some CHR ''1'']],
        verposs = [[''11''], [''01'']],
        horposs = [[''10''], [''11'']]\<rparr> ! 1 ! 0 = Some CHR ''0'' \<and>
   ''10'' ! 1 = CHR ''0''"
  (is "pass_inv 2 2 ?S \<and> ?rows = Inr ?T \<and> pass_inv 2 2 ?T \<and> ?cols = Inr ?U \<and>
       ?loop = Inr (?U, RetSelf) \<and> ?c1 \<and> ?c2 \<and> ?m \<and> ?b \<and> ?c3")
proof -
  have iS: "pass_inv 2 2 ?S" and iT: "pass_inv 2 2 ?T" by (simp_all add: pass_inv_def shaped_def)
  have r: "?rows = Inr ?T" by code_simp
  have c: "?cols = Inr ?U" by code_simp
  have l: "?loop = Inr (?U, RetSelf)" by code_simp
  have m: ?m and b: ?b by simp_all
  have one: "(1::nat) < 2" and zero: "(0::nat) < 2" and pos: "1 < length ''10''" by simp_all
  note rows = pruning_shrinks_and_agrees[OF iS, of ?T RetSelf]
    and cols = pruning_shrinks_and_agrees[OF iT, of ?U RetSelf]
  from rows r one have ?c1 by blast
  moreover from cols c zero have ?c2 by blast
  moreover from cols c zero m one b pos have ?c3 by blast
  ultimately show ?thesis using iS iT r c l m b by blast
qed

section \<open>Claims about the enumerator: shape of the patterns\<close>

lemma runs_from_zeros_append:
  "runs_from 0 (replicate i CHR ''0'' @ rest) = runs_from 0 rest"
  by (induction i) auto

lemma runs_from_ones_append:
  "runs_from k (replicate n CHR ''1'' @ rest) = runs_from (k + n) rest"
  by (induction n arbitrary: k) auto

lemma runs_from_zeros: "runs_from k (replicate r CHR ''0'') = (if k = 0 then [] else [k])"
proof (cases r)
  case 0
  then show ?thesis by simp
next
  case (Suc j)
  have "runs_from 0 (replicate j CHR ''0'') = []" by (induction j) auto
  with Suc show ?thesis by simp
qed

lemma sum_list_pos_nonneg: "\<forall>b\<in>set ns. (0::int) < b \<Longrightarrow> 0 \<le> sum_list ns"
  by (induction ns) auto

lemma single_block_pattern:
  assumes n: "0 < n" and i: "i < nat (deg_of_free [n] len + 1)"
  shows "filled_runs (replicate i CHR ''0'' @ ones n @ zeros (len - int (length (replicate i CHR ''0'' @ ones n)))) = [nat n]"
    and "length (replicate i CHR ''0'' @ ones n @ zeros (len - int (length (replicate i CHR ''0'' @ ones n)))) = nat len"
    and "set (replicate i CHR ''0'' @ ones n @ zeros (len - int (length (replicate i CHR ''0'' @ ones n)))) \<subseteq> {CHR ''0'', CHR ''1''}"
proof -
  from n show "filled_runs (replicate i CHR ''0'' @ ones n @ zeros (len - int (length (replicate i CHR ''0'' @ ones n)))) = [nat n]"
    by (simp add: filled_runs_def ones_def zeros_def runs_from_zeros_append runs_from_ones_append
        runs_from_zeros)
  from n i show "length (replicate i CHR ''0'' @ ones n @ zeros (len - int (length (replicate i CHR ''0'' @ ones n)))) = nat len"
    by (simp add: ones_def zeros_def deg_of_free_def)
  show "set (replicate i CHR ''0'' @ ones n @ zeros (len - int (length (replicate i CHR ''0'' @ ones n)))) \<subseteq> {CHR ''0'', CHR ''1''}"
    by (auto simp: ones_def zeros_def)
qed


lemma enumerated_fit:
  "blocks \<noteq> [] \<Longrightarrow> \<forall>b\<in>set blocks. 0 < b \<Longrightarrow> p \<in> set (get_numsposs blocks len) \<Longrightarrow>
     filled_runs p = map nat blocks \<and> length p = nat len \<and> set p \<subseteq> {CHR ''0'', CHR ''1''}"
proof (induction blocks arbitrary: len p)
  case Nil
  then show ?case by simp
next
  case (Cons n rest)
  from Cons.prems have n: "0 < n" by simp
  show ?case
  proof (cases rest)
    case Nil
    with Cons.prems n obtain i where i: "i < nat (deg_of_free [n] len + 1)"
      and p: "p = replicate i CHR ''0'' @ ones n @ zeros (len - int (length (replicate i CHR ''0'' @ ones n)))"
      by (auto simp: Let_def)
    from single_block_pattern[OF n i] p Nil show ?thesis by simp
  next
    case (Cons m ns)
    let ?d = "deg_of_free (n # m # ns) len"
    from Cons.prems Cons obtain i e where i: "i < nat (?d + 1)"
      and e: "e \<in> set (get_numsposs (m # ns) (len - int (length (replicate i CHR ''0'' @ ones n @ ''0''))))"
      and p: "p = (replicate i CHR ''0'' @ ones n @ ''0'') @ e"
      by (auto simp: Let_def)
    from Cons.prems Cons have pos: "\<forall>b\<in>set (m # ns). 0 < b" by simp
    have ne: "m # ns \<noteq> []" by simp
    from Cons.IH[unfolded Cons, OF ne pos e]
    have runs: "filled_runs e = map nat (m # ns)"
      and len_e: "length e = nat (len - int (length (replicate i CHR ''0'' @ ones n @ ''0'')))"
      and chars: "set e \<subseteq> {CHR ''0'', CHR ''1''}" by simp_all
    from pos have "0 < m" "0 \<le> sum_list ns" by (simp_all add: sum_list_pos_nonneg)
    with i n have room: "int i + n + 1 \<le> len" by (simp add: deg_of_free_def)
    have "filled_runs p = nat n # filled_runs e"
      using n by (simp add: p filled_runs_def ones_def runs_from_zeros_append runs_from_ones_append)
    moreover have "length p = nat len"
      using n room by (simp add: p len_e ones_def)
    moreover have "set p \<subseteq> {CHR ''0'', CHR ''1''}"
      using chars by (auto simp: p ones_def)
    ultimately show ?thesis using runs Cons by simp
  qed
qed

text \<open>
  Counterexample to C5 as stated: the hint \<^verbatim>\<open>[0]\<close>, which the enumerator accepts as the
  deliberately empty line, has one block entry, but its pattern on a line of length 2 is
  all empty and has no filled run at all.
\<close>

theorem zero_hint_pattern_has_no_run:
  "''00'' \<in> set (get_numsposs [0] 2) \<and> length (filled_runs ''00'') \<noteq> length [0 :: int]"
  by code_simp

text \<open>
  C5 (amended): for every non-empty sequence of positive block lengths and every line
  length, every pattern the enumerator produces is a string of filled and empty cells of
  exactly the line length whose maximal filled runs, left to right, have exactly the
  lengths of \<open>blocks\<close> (so there are \<open>len(blocks)\<close> of them, consecutive ones separated
  by at least one empty cell). For the hint \<^verbatim>\<open>[0]\<close> the one pattern is the all-empty
  line of the line length, with no filled run.
\<close>

theorem enumerated_patterns_match_blocks:
  assumes "blocks \<noteq> []" and "\<forall>b\<in>set blocks. 0 < b" and "p \<in> set (get_numsposs blocks len)"
  shows "filled_runs p = map nat blocks \<and> int (length p) = len \<and>
         set p \<subseteq> {CHR ''0'', CHR ''1''} \<and>
         get_numsposs [0] len = [zeros len] \<and> filled_runs (zeros len) = [] \<and>
         length (zeros len) = nat len"
proof -
  note fit = enumerated_fit[OF assms]
  have "0 \<le> len"
  proof (rule ccontr)
    assume "\<not> 0 \<le> len"
    then have neg: "len < 0" by simp
    from assms(2) have "0 \<le> sum_list blocks" by (rule sum_list_pos_nonneg)
    moreover from assms(1) have "1 \<le> int (length blocks)" by (cases blocks) simp_all
    ultimately have "deg_of_free blocks len < 0" using neg unfolding deg_of_free_def by linarith
    then have none: "nat (deg_of_free blocks len + 1) = 0" by simp
    show False
    proof (cases blocks)
      case Nil
      with assms(1) show ?thesis by simp
    next
      case (Cons n rest)
      with none assms(2,3) show ?thesis by (cases rest) (auto split: if_splits)
    qed
  qed
  with fit have "int (length p) = len" by simp
  moreover have "filled_runs (zeros len) = []"
    by (simp add: filled_runs_def zeros_def runs_from_zeros)
  ultimately show ?thesis using fit by (simp add: zeros_def)
qed

text \<open>Witness for C5 (amended): a pattern of the docstring's example for \<^verbatim>\<open>([2, 1], 5)\<close>.\<close>

theorem enumerated_patterns_match_blocks_witness:
  "[2, 1] \<noteq> ([] :: int list) \<and> list_all (\<lambda>b. 0 < b) [2, 1 :: int] \<and>
   ''11001'' \<in> set (get_numsposs [2, 1] 5) \<and>
   filled_runs ''11001'' = map nat [2, 1] \<and> int (length ''11001'') = 5"
proof -
  have h1: "[2, 1] \<noteq> ([] :: int list)" and h2: "\<forall>b\<in>set [2, 1 :: int]. 0 < b" by simp_all
  have h3: "''11001'' \<in> set (get_numsposs [2, 1] 5)" by code_simp
  from enumerated_patterns_match_blocks[OF h1 h2 h3] h1 h3 show ?thesis by simp
qed

section \<open>Claims about the enumerator: number of patterns\<close>

lemma distinct_get_numsposs: "distinct (get_numsposs nums len)"
proof (cases nums)
  case Nil
  then show ?thesis by simp
next
  case (Cons n rest)
  then show ?thesis by (cases rest) simp_all
qed

lemma leading_zeros:
  "0 < n \<Longrightarrow>
   length (takeWhile (\<lambda>c. c = CHR ''0'') (replicate i CHR ''0'' @ ones n @ rest)) = i"
proof -
  assume "0 < n"
  then obtain r where "ones n = CHR ''1'' # r"
    by (cases "nat n") (auto simp: ones_def)
  moreover have "length (takeWhile (\<lambda>c. c = CHR ''0'') (replicate i CHR ''0'' @ CHR ''1'' # ys)) = i"
    for ys by (induction i) auto
  ultimately show ?thesis by simp
qed

lemma distinct_concat_by_key:
  assumes "distinct js"
    and "\<And>i. i \<in> set js \<Longrightarrow> distinct (g i)"
    and "\<And>i x. i \<in> set js \<Longrightarrow> x \<in> set (g i) \<Longrightarrow> key x = i"
  shows "distinct (concat (map g js))"
  using assms
proof (induction js)
  case Nil
  then show ?case by simp
next
  case (Cons i js)
  have "set (g i) \<inter> set (concat (map g js)) = {}"
  proof (rule ccontr)
    assume "set (g i) \<inter> set (concat (map g js)) \<noteq> {}"
    then obtain x j where "x \<in> set (g i)" "j \<in> set js" "x \<in> set (g j)" by auto
    with Cons.prems(3)[of i x] Cons.prems(3)[of j x] have "i = j" by simp
    with \<open>j \<in> set js\<close> Cons.prems(1) show False by simp
  qed
  moreover have "distinct (concat (map g js))"
    using Cons.prems by (intro Cons.IH) simp_all
  ultimately show ?case using Cons.prems(2)[of i] by simp
qed

lemma rising_sum_reversed:
  "sum_list (map (\<lambda>i. (d - i + k) choose k) [0..<Suc d]) = (d + Suc k) choose Suc k"
proof -
  have "sum_list (map (\<lambda>i. (d - i + k) choose k) [0..<Suc d])
      = (\<Sum>i<Suc d. (Suc d - Suc i + k) choose k)"
    by (simp add: interv_sum_list_conv_sum_set_nat atLeast0LessThan del: upt_Suc)
  also have "\<dots> = (\<Sum>i<Suc d. (i + k) choose k)"
    by (rule sum.nat_diff_reindex[of "\<lambda>j. (j + k) choose k" "Suc d"])
  also have "\<dots> = (\<Sum>j\<le>d. (k + j) choose k)"
    by (simp add: lessThan_Suc_atMost add.commute)
  also have "\<dots> = (k + d + 1) choose (k + 1)"
    by (rule choose_rising_sum(1))
  finally show ?thesis by (simp add: add.commute)
qed


lemma distinct_map_by_key:
  assumes "distinct js" and "\<And>i. i \<in> set js \<Longrightarrow> key (f i) = i"
  shows "distinct (map f js)"
proof -
  have "inj_on f (set js)"
    by (rule inj_on_inverseI[where g = key]) (rule assms(2))
  with assms(1) show ?thesis by (simp add: distinct_map)
qed

lemma single_block_count:
  assumes n: "0 < n"
  shows "length (get_numsposs [n] len) = nat (deg_of_free [n] len + 1)"
proof -
  let ?f = "\<lambda>i. let string = replicate i CHR ''0'' @ ones n
                in string @ zeros (len - int (length string))"
  let ?js = "[0..<nat (deg_of_free [n] len + 1)]"
  have "distinct (map ?f ?js)"
  proof (rule distinct_map_by_key[where key = "\<lambda>p. length (takeWhile (\<lambda>c. c = CHR ''0'') p)"])
    show "distinct ?js" by simp
  next
    fix i
    from leading_zeros[OF n]
    show "length (takeWhile (\<lambda>c. c = CHR ''0'') (?f i)) = i" by (simp add: Let_def)
  qed
  with n show ?thesis by (simp add: distinct_remdups_id)
qed

lemma enumerated_count:
  "blocks \<noteq> [] \<Longrightarrow> \<forall>b\<in>set blocks. 0 < b \<Longrightarrow> 0 \<le> deg_of_free blocks len \<Longrightarrow>
     length (get_numsposs blocks len)
       = (nat (deg_of_free blocks len) + length blocks) choose length blocks"
proof (induction blocks arbitrary: len)
  case Nil
  then show ?case by simp
next
  case (Cons n rest)
  from Cons.prems have n: "0 < n" by simp
  show ?case
  proof (cases rest)
    case Nil
    with Cons.prems single_block_count[OF n, of len] show ?thesis
      by (simp add: nat_add_distrib)
  next
    case (Cons m ns)
    define d where "d = nat (deg_of_free (n # m # ns) len)"
    define k where "k = length (m # ns)"
    define g where "g = (\<lambda>i. let string = replicate i CHR ''0'' @ ones n @ ''0''
                in map (\<lambda>rest. string @ rest)
                     (get_numsposs (m # ns) (len - int (length string))))"
    from Cons.prems Cons have d0: "0 \<le> deg_of_free (n # m # ns) len"
      and pos: "\<forall>b\<in>set (m # ns). 0 < b" by simp_all
    have js: "[0..<nat (deg_of_free (n # m # ns) len + 1)] = [0..<Suc d]"
      using d0 by (simp add: nat_add_distrib d_def)
    have deg: "deg_of_free (m # ns) (len - int (length (replicate i CHR ''0'' @ ones n @ ''0'')))
                 = int (d - i)" if "i < Suc d" for i
      using that n d0 by (simp add: deg_of_free_def ones_def d_def)
    have len_g: "length (g i) = (d - i + k) choose k" if i: "i < Suc d" for i
    proof -
      have ne: "m # ns \<noteq> []" by simp
      have "length (g i)
          = length (get_numsposs (m # ns) (len - int (length (replicate i CHR ''0'' @ ones n @ ''0''))))"
        by (simp add: g_def Let_def)
      also have "\<dots> = (nat (int (d - i)) + k) choose k"
      proof -
        have nn: "0 \<le> deg_of_free (m # ns)
                     (len - int (length (replicate i CHR ''0'' @ ones n @ ''0'')))"
          unfolding deg[OF i] by simp
        show ?thesis
          unfolding k_def deg[OF i, symmetric] by (rule Cons.IH[unfolded Cons, OF ne pos nn])
      qed
      finally show ?thesis by simp
    qed
    have dist: "distinct (concat (map g [0..<Suc d]))"
    proof (rule distinct_concat_by_key[where key = "\<lambda>p. length (takeWhile (\<lambda>c. c = CHR ''0'') p)"])
      show "distinct [0..<Suc d]" by simp
    next
      fix i
      show "distinct (g i)"
        by (simp add: g_def Let_def distinct_map distinct_get_numsposs inj_on_def)
    next
      fix i x assume "x \<in> set (g i)"
      then obtain e where "x = replicate i CHR ''0'' @ ones n @ ''0'' @ e"
        by (auto simp: g_def Let_def)
      with leading_zeros[OF n] show "length (takeWhile (\<lambda>c. c = CHR ''0'') x) = i" by simp
    qed
    have "get_numsposs (n # m # ns) len = remdups (concat (map g [0..<Suc d]))"
      unfolding g_def js[symmetric] by simp
    with dist have "length (get_numsposs (n # m # ns) len) = length (concat (map g [0..<Suc d]))"
      by (simp only: distinct_remdups_id)
    also have "\<dots> = sum_list (map (\<lambda>i. length (g i)) [0..<Suc d])"
      by (simp only: length_concat map_map comp_def)
    also have "map (\<lambda>i. length (g i)) [0..<Suc d] = map (\<lambda>i. (d - i + k) choose k) [0..<Suc d]"
    proof (rule map_cong[OF refl])
      fix i assume "i \<in> set [0..<Suc d]"
      then have "i < Suc d" by (simp del: upt_Suc)
      then show "length (g i) = (d - i + k) choose k" by (rule len_g)
    qed
    also have "sum_list (map (\<lambda>i. (d - i + k) choose k) [0..<Suc d]) = (d + Suc k) choose Suc k"
      by (rule rising_sum_reversed)
    finally have total: "length (get_numsposs (n # m # ns) len) = (d + Suc k) choose Suc k" .
    have sk: "Suc k = length (n # m # ns)" by (simp add: k_def)
    from total show ?thesis unfolding sk d_def Cons .
  qed
qed

text \<open>
  Counterexample to C6 as stated: the hint \<^verbatim>\<open>[2, 0]\<close> on a line of length 4 has one or
  more blocks and freedom 1, the closed form gives 3, and the enumerator returns 2
  patterns. The hint \<^verbatim>\<open>[0]\<close> on a line of length 1 has one block and freedom 1 as well:
  the closed form gives 2 where the enumerator returns the 1 pattern the claim's own
  boundary case names.
\<close>

theorem zero_block_count_is_not_binomial:
  "1 \<le> length [2, 0 :: int] \<and> 0 \<le> deg_of_free [2, 0] 4 \<and>
   get_numsposs [2, 0] 4 = [''1100'', ''0110''] \<and>
   card (set (get_numsposs [2, 0] 4)) = 2 \<and>
   (nat (deg_of_free [2, 0] 4) + length [2, 0 :: int]) choose length [2, 0 :: int] = 3 \<and>
   1 \<le> length [0 :: int] \<and> 0 \<le> deg_of_free [0] 1 \<and>
   card (set (get_numsposs [0] 1)) = 1 \<and>
   (nat (deg_of_free [0] 1) + length [0 :: int]) choose length [0 :: int] = 2"
  by code_simp

text \<open>
  C6 (amended): for every non-empty sequence of positive block lengths with non-negative
  freedom, the number of patterns in the set the enumerator returns is the binomial
  coefficient of (freedom + number of blocks) over (number of blocks); for the empty
  sequence the set has exactly one pattern, and for \<^verbatim>\<open>[0]\<close> exactly one.
\<close>

theorem enumerated_count_is_binomial:
  assumes "blocks \<noteq> []" and "\<forall>b\<in>set blocks. 0 < b" and "0 \<le> deg_of_free blocks len"
  shows "card (set (get_numsposs blocks len))
           = (nat (deg_of_free blocks len) + length blocks) choose length blocks \<and>
         card (set (get_numsposs [] len)) = 1 \<and>
         card (set (get_numsposs [0] len)) = 1"
  using distinct_card[OF distinct_get_numsposs, of blocks len] enumerated_count[OF assms]
  by simp

text \<open>Witness for C6 (amended): the docstring's example \<^verbatim>\<open>([2, 1], 5)\<close>, three patterns.\<close>

theorem enumerated_count_is_binomial_witness:
  "[2, 1] \<noteq> ([] :: int list) \<and> list_all (\<lambda>b. 0 < b) [2, 1 :: int] \<and>
   0 \<le> deg_of_free [2, 1] 5 \<and>
   get_numsposs [2, 1] 5 = [''11010'', ''11001'', ''01101''] \<and>
   (nat (deg_of_free [2, 1] 5) + length [2, 1 :: int]) choose length [2, 1 :: int] = 3 \<and>
   card (set (get_numsposs [2, 1] 5))
     = (nat (deg_of_free [2, 1] 5) + length [2, 1 :: int]) choose length [2, 1 :: int]"
proof -
  have h1: "[2, 1] \<noteq> ([] :: int list)" and h2: "\<forall>b\<in>set [2, 1 :: int]. 0 < b"
    and h3: "0 \<le> deg_of_free [2, 1] 5" by (simp_all add: deg_of_free_def)
  have e: "get_numsposs [2, 1] 5 = [''11010'', ''11001'', ''01101'']" by code_simp
  have b: "(nat (deg_of_free [2, 1] 5) + length [2, 1 :: int]) choose length [2, 1 :: int] = 3"
    by code_simp
  have h2': "list_all (\<lambda>b. 0 < b) [2, 1 :: int]" by simp
  note c = enumerated_count_is_binomial[OF h1 h2 h3, THEN conjunct1]
  from h1 h2' h3 e b c show ?thesis by blast
qed

section \<open>Claims about failure outcomes: an emptied candidate set\<close>

text \<open>
  On a board whose candidate patterns all have their line's length, no step of a pass
  can raise: every pattern can be read at every position of the line, and a single
  remaining pattern can be assigned to it. This holds whether or not a candidate set is,
  or becomes, empty.
\<close>

lemma prune_total:
  "list_all (\<lambda>p. length p = n) possible \<Longrightarrow> i + length nums \<le> n \<Longrightarrow>
     \<exists>possible'. prune i nums possible = Inr possible'"
proof (induction i nums possible rule: prune.induct)
  case (1 i possible)
  then show ?case by simp
next
  case (2 i nums possible)
  then show ?case by simp
next
  case (3 i c nums possible)
  from "3.prems" have short: "\<not> list_ex (\<lambda>poss. length poss \<le> i) possible"
    by (auto simp: list_ex_iff list_all_iff)
  from "3.prems" have "list_all (\<lambda>p. length p = n) (filter (\<lambda>poss. poss ! i = c) possible)"
    by (simp add: list_all_iff)
  from "3.IH"[OF short this] "3.prems"(2) short show ?case by simp
qed

lemma ruleout_line_total:
  assumes fit: "list_all (\<lambda>p. length p = n) possible" and len: "length nums = n"
  shows "\<exists>possible' w. ruleout_line n nums possible = Inr (possible', w) \<and>
           list_all (\<lambda>p. length p = n) possible'"
proof (cases "length possible = 1")
  case True
  then obtain p where p: "possible = [p]" by (cases possible) auto
  with fit have "broadcast n (map Some p) = Inr (map Some p)" by (simp add: broadcast_same)
  with True p fit show ?thesis by (simp add: ruleout_line_def)
next
  case False
  from prune_total[OF fit, of 0 nums] len obtain pr where pr: "prune 0 nums possible = Inr pr"
    by auto
  from prune_spec[OF pr] fit have fpr: "list_all (\<lambda>p. length p = n) pr"
    by (auto simp: list_all_iff)
  show ?thesis
  proof (cases "length pr = 1")
    case True
    then obtain p where p: "pr = [p]" by (cases pr) auto
    with fpr have "broadcast n (map Some p) = Inr (map Some p)" by (simp add: broadcast_same)
    with False pr True p fpr show ?thesis by (simp add: ruleout_line_def)
  next
    case ns: False
    with False pr fpr show ?thesis by (simp add: ruleout_line_def)
  qed
qed

lemma list_all_update:
  "list_all P xs \<Longrightarrow> P x \<Longrightarrow> list_all P (xs[i := x])"
  using set_update_subset_insert[of xs i x] by (auto simp: list_all_iff)

lemma ruleout_row_total:
  assumes inv: "pass_inv h w s" and fit: "fits s" and y: "y < h"
  shows "\<exists>s'. ruleout_row y s = Inr s' \<and> pass_inv h w s' \<and> fits s'"
proof -
  from inv y have lr: "length (board s ! y) = width s" and lv: "y < length (verposs s)"
    by (simp_all add: pass_inv_def shaped_iff)
  from fit lv have fy: "list_all (\<lambda>p. length p = width s) (verposs s ! y)"
    by (simp add: fits_def list_all_length)
  from ruleout_line_total[OF fy lr] obtain possible' wr
    where l: "ruleout_line (width s) (board s ! y) (verposs s ! y) = Inr (possible', wr)"
      and f': "list_all (\<lambda>p. length p = width s) possible'" by blast
  then obtain s' where s': "ruleout_row y s = Inr s'" by (simp add: ruleout_row_def)
  from ruleout_row_fields[OF s'] l have "verposs s' = (verposs s)[y := possible']"
    "horposs s' = horposs s" "height s' = height s" "width s' = width s" by auto
  with fit f' have "fits s'" by (simp add: fits_def list_all_update)
  with s' ruleout_row_inv[OF s' inv] show ?thesis by blast
qed

lemma ruleout_col_total:
  assumes inv: "pass_inv h w s" and fit: "fits s" and x: "x < w"
  shows "\<exists>s'. ruleout_col x s = Inr s' \<and> pass_inv h w s' \<and> fits s'"
proof -
  from inv have lc: "length (get_col x (board s)) = height s"
    by (simp add: pass_inv_def shaped_iff get_col_def)
  from inv x have lv: "x < length (horposs s)" by (simp add: pass_inv_def)
  from fit lv have fx: "list_all (\<lambda>p. length p = height s) (horposs s ! x)"
    by (simp add: fits_def list_all_length)
  from ruleout_line_total[OF fx lc] obtain possible' wr
    where l: "ruleout_line (height s) (get_col x (board s)) (horposs s ! x) = Inr (possible', wr)"
      and f': "list_all (\<lambda>p. length p = height s) possible'" by blast
  then obtain s' where s': "ruleout_col x s = Inr s'" by (simp add: ruleout_col_def)
  from ruleout_col_fields[OF s'] l have "horposs s' = (horposs s)[x := possible']"
    "verposs s' = verposs s" "height s' = height s" "width s' = width s" by auto
  with fit f' have "fits s'" by (simp add: fits_def list_all_update)
  with s' ruleout_col_inv[OF s' inv] show ?thesis by blast
qed

lemma ruleout_rows_total:
  assumes "pass_inv h w s" and "fits s"
  shows "\<exists>s'. ruleout_rows s = Inr s' \<and> pass_inv h w s' \<and> fits s'"
proof -
  have "\<exists>s'. fold_err ruleout_row [0..<h] s = Inr s' \<and> (pass_inv h w s' \<and> fits s')"
    by (rule fold_err_total[where I = "\<lambda>t. pass_inv h w t \<and> fits t"])
      (use assms in \<open>auto intro: ruleout_row_total\<close>)
  with assms(1) show ?thesis by (simp add: ruleout_rows_def pass_inv_def)
qed

lemma ruleout_cols_total:
  assumes "pass_inv h w s" and "fits s"
  shows "\<exists>s'. ruleout_cols s = Inr s' \<and> pass_inv h w s' \<and> fits s'"
proof -
  have "\<exists>s'. fold_err ruleout_col [0..<w] s = Inr s' \<and> (pass_inv h w s' \<and> fits s')"
    by (rule fold_err_total[where I = "\<lambda>t. pass_inv h w t \<and> fits t"])
      (use assms in \<open>auto intro: ruleout_col_total\<close>)
  with assms(1) show ?thesis by (simp add: ruleout_cols_def pass_inv_def)
qed

lemma propagate_total:
  "pass_inv h w s \<Longrightarrow> fits s \<Longrightarrow> \<exists>s' r. propagate s = Inr (s', r)"
proof (induction s rule: propagate.induct)
  case (1 s)
  show ?case
  proof (cases "remaining_squares s = 0")
    case True
    then show ?thesis by (simp add: propagate.simps[of s])
  next
    case nz: False
    from ruleout_rows_total[OF "1.prems"] obtain s1
      where rw: "ruleout_rows s = Inr s1" and i1: "pass_inv h w s1" "fits s1" by blast
    from ruleout_cols_total[OF i1] obtain s2
      where cl: "ruleout_cols s1 = Inr s2" and i2: "pass_inv h w s2" "fits s2" by blast
    show ?thesis
    proof (cases "remaining_squares s = remaining_squares s2")
      case True
      with nz rw cl show ?thesis by (simp add: propagate.simps[of s])
    next
      case ne: False
      from "1.IH"[OF nz rw cl ne i2] nz rw cl ne show ?thesis
        by (simp add: propagate.simps[of s])
    qed
  qed
qed


lemma hint_ok_pattern_length:
  assumes "hint_ok nums" and "p \<in> set (get_numsposs nums (int n))"
  shows "length p = n"
proof (cases "nums = [0]")
  case True
  with assms(2) show ?thesis by (simp add: zeros_def)
next
  case False
  with assms(1) have "nums \<noteq> []" "\<forall>b\<in>set nums. 0 < b"
    by (simp_all add: hint_ok_def list_all_iff)
  from enumerated_fit[OF this assms(2)] show ?thesis by simp
qed

lemma seed_rows_content:
  "fold_err seed_row js s = Inr s' \<Longrightarrow>
     verposs s' = verposs s @ map (\<lambda>i. get_numsposs (verlist s ! i) (int (width s))) js"
proof (induction js arbitrary: s)
  case Nil
  then show ?case by simp
next
  case (Cons i js)
  then obtain s1 where a: "seed_row i s = Inr s1" and b: "fold_err seed_row js s1 = Inr s'"
    by (auto split: sum.splits)
  from Cons.IH[OF b] seed_row_fields(2,3,6)[OF a] show ?case by simp
qed

lemma seed_cols_content:
  "fold_err seed_col js s = Inr s' \<Longrightarrow> shaped s \<Longrightarrow>
     horposs s' = horposs s @ map (\<lambda>i. get_numsposs (horlist s ! i) (int (height s))) js"
proof (induction js arbitrary: s)
  case Nil
  then show ?case by simp
next
  case (Cons i js)
  then obtain s1 where a: "seed_col i s = Inr s1" and b: "fold_err seed_col js s1 = Inr s'"
    by (auto split: sum.splits)
  from Cons.IH[OF b seed_col_shaped[OF a Cons.prems(2)]] seed_col_fields(1,4,6)[OF a Cons.prems(2)]
  show ?case by simp
qed

lemma initial_possibilities_candidates:
  assumes run: "initial_possibilities (construct hl vl) = Inr s'"
  shows "verposs s' = map (\<lambda>y. get_numsposs (vl ! y) (int (length hl))) [0..<length vl]"
    and "horposs s' = map (\<lambda>x. get_numsposs (hl ! x) (int (length vl))) [0..<length hl]"
proof -
  let ?h = "length vl" and ?w = "length hl"
  let ?s0 = "(construct hl vl)\<lparr>verposs := []\<rparr>"
  from run obtain s1 where r: "fold_err seed_row [0..<?h] ?s0 = Inr s1"
    and c0: "fold_err seed_col [0..<length (horlist s1)] (s1\<lparr>horposs := []\<rparr>) = Inr s'"
    by (auto simp: initial_possibilities_def construct_def split: sum.splits)
  have i0: "seed_inv ?h ?w hl vl ?s0"
    using shaped_construct[of hl vl] by (simp add: seed_inv_def shaped_def construct_def)
  note rs = rows_seeded(1)[OF r i0]
  from rs have i1: "seed_inv ?h ?w hl vl (s1\<lparr>horposs := []\<rparr>)"
    by (auto simp: seed_inv_def shaped_def)
  from rs c0 have c: "fold_err seed_col [0..<?w] (s1\<lparr>horposs := []\<rparr>) = Inr s'"
    by (simp add: seed_inv_def)
  from i1 have sh1: "shaped (s1\<lparr>horposs := []\<rparr>)" by (simp add: seed_inv_def)
  from seed_rows_content[OF r]
  have v1: "verposs s1 = map (\<lambda>y. get_numsposs (vl ! y) (int ?w)) [0..<?h]"
    by (simp add: construct_def)
  from seed_cols_horposs[OF c sh1] v1
  show "verposs s' = map (\<lambda>y. get_numsposs (vl ! y) (int ?w)) [0..<?h]" by simp
  from seed_cols_content[OF c sh1] i1
  show "horposs s' = map (\<lambda>x. get_numsposs (hl ! x) (int ?h)) [0..<?w]"
    by (simp add: seed_inv_def)
qed

lemma initial_possibilities_fits:
  assumes run: "initial_possibilities (construct hl vl) = Inr s'"
    and hl: "list_all hint_ok hl" and vl: "list_all hint_ok vl"
  shows "fits s'"
proof -
  from initial_possibilities_seeded(1)[OF run]
  have hw: "height s' = length vl" "width s' = length hl" by (simp_all add: seed_inv_def)
  have "list_all (list_all (\<lambda>p. length p = length hl)) (verposs s')"
    unfolding initial_possibilities_candidates(1)[OF run]
    using vl by (auto simp: list_all_iff intro: hint_ok_pattern_length)
  moreover have "list_all (list_all (\<lambda>p. length p = length vl)) (horposs s')"
    unfolding initial_possibilities_candidates(2)[OF run]
    using hl by (auto simp: list_all_iff intro: hint_ok_pattern_length)
  ultimately show ?thesis by (simp add: fits_def hw)
qed

lemma propagate_two_outcomes:
  "propagate s = Inr (s', r) \<Longrightarrow>
     (r = RetSelf \<and> remaining_squares s' = 0) \<or> (r = RetNone \<and> 0 < remaining_squares s')"
proof (induction s rule: propagate.induct)
  case (1 t)
  show ?case
  proof (cases "remaining_squares t = 0")
    case True
    with "1.prems" show ?thesis by (simp add: propagate.simps[of t])
  next
    case False
    with "1.prems" obtain s1 s2 where r: "ruleout_rows t = Inr s1" and c: "ruleout_cols s1 = Inr s2"
      by (auto simp: propagate.simps[of t] split: sum.splits)
    show ?thesis
    proof (cases "remaining_squares t = remaining_squares s2")
      case True
      with False r c "1.prems" show ?thesis by (simp add: propagate.simps[of t])
    next
      case ne: False
      with False r c "1.prems" have "propagate s2 = Inr (s', r)" by (simp add: propagate.simps[of t])
      from "1.IH"[OF False r c ne this] show ?thesis .
    qed
  qed
qed

text \<open>
  Counterexample to C2 as stated: rows hinted \<open>2\<close> and \<open>1\<close>, columns hinted \<open>0\<close> and
  \<open>1\<close>. The second column starts with two candidates; the first cycle's column pass
  removes both, leaving its candidate set empty. Nothing is raised, and \<^verbatim>\<open>solve\<close>
  returns the board as Solved.
\<close>

theorem solve_reports_emptied_set_as_solved:
  "get_numsposs [1] 2 = [''10'', ''01''] \<and>
   solve (construct [[0], [1]] [[2], [1]]) =
     Inr (\<lparr>verlist = [[2], [1]], horlist = [[0], [1]], height = 2, width = 2,
           board = [[Some CHR ''0'', Some CHR ''1''], [Some CHR ''0'', Some CHR ''1'']],
           verposs = [[''11''], [''01'']], horposs = [[''00''], []]\<rparr>, RetSelf)"
  by code_simp

text \<open>
  C2 (amended): when pruning removes the last pattern of a line's candidate set, no
  failure is raised or recorded. On every board constructed from hints of positive blocks
  (or the hint \<^verbatim>\<open>[0]\<close>) whose seeding returns, \<^verbatim>\<open>solve\<close> returns normally, as Solved or
  as Stalled according to the count of unknown cells alone, whatever candidate sets the
  passes have emptied. The step of a row or column pass that prunes a line's set to
  empty returns with the empty set stored and the grid untouched, and so does every later
  step on a line whose set is already empty.
\<close>

theorem emptied_set_is_silent:
  assumes "list_all hint_ok horl" and "list_all hint_ok verl"
    and "initial_possibilities (construct horl verl) = Inr s1"
  shows "(\<exists>s' r. solve (construct horl verl) = Inr (s', r) \<and>
            ((r = RetSelf \<and> remaining_squares s' = 0) \<or>
             (r = RetNone \<and> 0 < remaining_squares s'))) \<and>
         (length (verposs t ! y) \<noteq> 1 \<and> prune 0 (board t ! y) (verposs t ! y) = Inr [] \<longrightarrow>
            ruleout_row y t = Inr (t\<lparr>verposs := (verposs t)[y := []]\<rparr>)) \<and>
         (length (horposs t ! x) \<noteq> 1 \<and> prune 0 (get_col x (board t)) (horposs t ! x) = Inr [] \<longrightarrow>
            ruleout_col x t = Inr (t\<lparr>horposs := (horposs t)[x := []]\<rparr>)) \<and>
         (verposs t ! y = [] \<longrightarrow> ruleout_row y t = Inr (t\<lparr>verposs := (verposs t)[y := []]\<rparr>)) \<and>
         (horposs t ! x = [] \<longrightarrow> ruleout_col x t = Inr (t\<lparr>horposs := (horposs t)[x := []]\<rparr>))"
proof -
  from initial_possibilities_pass_inv[OF assms(3)]
  have inv: "pass_inv (length verl) (length horl) s1" .
  from initial_possibilities_fits[OF assms(3,1,2)] have fit: "fits s1" .
  from propagate_total[OF inv fit] obtain s' r where p: "propagate s1 = Inr (s', r)" by blast
  with assms(3) have "solve (construct horl verl) = Inr (s', r)" by (simp add: solve_def)
  with propagate_two_outcomes[OF p]
  have "\<exists>s' r. solve (construct horl verl) = Inr (s', r) \<and>
            ((r = RetSelf \<and> remaining_squares s' = 0) \<or>
             (r = RetNone \<and> 0 < remaining_squares s'))" by blast
  then show ?thesis
    by (simp add: ruleout_row_def ruleout_col_def ruleout_line_def prune_nil)
qed

text \<open>
  Witness for C2 (amended): rows hinted \<open>2\<close> and \<open>1\<close>, columns hinted \<open>0\<close> and \<open>1\<close>. In the
  first cycle's column pass, the step for the second column finds both cells filled,
  prunes both placements of its block and returns with the empty set; \<^verbatim>\<open>solve\<close> returns
  the board.
\<close>

theorem emptied_set_is_silent_witness:
  "list_all hint_ok [[0], [1]] \<and> list_all hint_ok [[2], [1]] \<and>
   initial_possibilities (construct [[0], [1]] [[2], [1]]) =
     Inr \<lparr>verlist = [[2], [1]], horlist = [[0], [1]], height = 2, width = 2,
          board = [[Some CHR ''1'', Some CHR ''1''], [Some CHR ''0'', None]],
          verposs = [[''11''], [''10'', ''01'']],
          horposs = [[''00''], [''10'', ''01'']]\<rparr> \<and>
   solve (construct [[0], [1]] [[2], [1]]) =
     Inr (\<lparr>verlist = [[2], [1]], horlist = [[0], [1]], height = 2, width = 2,
          board = [[Some CHR ''0'', Some CHR ''1''], [Some CHR ''0'', Some CHR ''1'']],
          verposs = [[''11''], [''01'']],
          horposs = [[''00''], []]\<rparr>, RetSelf) \<and>
   length (horposs \<lparr>verlist = [[2], [1]], horlist = [[0], [1]], height = 2, width = 2,
          board = [[Some CHR ''0'', Some CHR ''1''], [Some CHR ''0'', Some CHR ''1'']],
          verposs = [[''11''], [''01'']],
          horposs = [[''00''], [''10'', ''01'']]\<rparr> ! 1) \<noteq> 1 \<and>
   prune 0 (get_col 1 (board \<lparr>verlist = [[2], [1]], horlist = [[0], [1]], height = 2, width = 2,
          board = [[Some CHR ''0'', Some CHR ''1''], [Some CHR ''0'', Some CHR ''1'']],
          verposs = [[''11''], [''01'']],
          horposs = [[''00''], [''10'', ''01'']]\<rparr>))
     (horposs \<lparr>verlist = [[2], [1]], horlist = [[0], [1]], height = 2, width = 2,
          board = [[Some CHR ''0'', Some CHR ''1''], [Some CHR ''0'', Some CHR ''1'']],
          verposs = [[''11''], [''01'']],
          horposs = [[''00''], [''10'', ''01'']]\<rparr> ! 1) = Inr [] \<and>
   ruleout_col 1 \<lparr>verlist = [[2], [1]], horlist = [[0], [1]], height = 2, width = 2,
          board = [[Some CHR ''0'', Some CHR ''1''], [Some CHR ''0'', Some CHR ''1'']],
          verposs = [[''11''], [''01'']],
          horposs = [[''00''], [''10'', ''01'']]\<rparr> =
     Inr \<lparr>verlist = [[2], [1]], horlist = [[0], [1]], height = 2, width = 2,
          board = [[Some CHR ''0'', Some CHR ''1''], [Some CHR ''0'', Some CHR ''1'']],
          verposs = [[''11''], [''01'']],
          horposs = [[''00''], []]\<rparr>"
  (is "?h1 \<and> ?h2 \<and> ?init = Inr ?S1 \<and> ?run = Inr (?T2, RetSelf) \<and>
       length (horposs ?M ! 1) \<noteq> 1 \<and> ?p \<and> ?step")
proof -
  have h1: ?h1 and h2: ?h2 by (simp_all add: hint_ok_def)
  have h3: "?init = Inr ?S1" by code_simp
  have run: "?run = Inr (?T2, RetSelf)" by code_simp
  have l: "length (horposs ?M ! 1) \<noteq> 1" by simp
  have p: ?p by code_simp
  note inst = emptied_set_is_silent[OF h1 h2 h3, where t = "?M" and x = 1]
  from inst l p have ?step by simp
  with h1 h2 h3 run l p show ?thesis by blast
qed

end
